theory Spec2Isabelle
  imports Complex_Main
begin

section \<open>Python values used by advanced\_cracker.py\<close>

text \<open>
  Exceptions are values. Only the class and the text given by \<open>str(e)\<close> matter to the
  program: \<open>crack\<close> and \<open>_worker\<close> append \<open>str(e)\<close> to \<open>stats.errors\<close>.
\<close>

datatype py_error =
    FileNotFoundError string
  | ValueError string
  | OtherError string

fun str_of :: "py_error \<Rightarrow> string" where
  "str_of (FileNotFoundError m) = m"
| "str_of (ValueError m) = m"
| "str_of (OtherError m) = m"

text \<open>
  \<open>range(start, stop, step)\<close>: a zero step raises ValueError, a positive step counts up
  while below \<open>stop\<close>, a negative step counts down while above \<open>stop\<close>.
\<close>

function range_up :: "int \<Rightarrow> int \<Rightarrow> int \<Rightarrow> int list" where
  "range_up i stop step =
     (if 0 < step \<and> i < stop then i # range_up (i + step) stop step else [])"
  by pat_completeness auto
termination
  by (relation "measure (\<lambda>(i, stop, step). nat (stop - i))") auto

declare range_up.simps [simp del]

function range_down :: "int \<Rightarrow> int \<Rightarrow> int \<Rightarrow> int list" where
  "range_down i stop step =
     (if step < 0 \<and> stop < i then i # range_down (i + step) stop step else [])"
  by pat_completeness auto
termination
  by (relation "measure (\<lambda>(i, stop, step). nat (i - stop))") auto

declare range_down.simps [simp del]

definition py_range :: "int \<Rightarrow> int \<Rightarrow> int \<Rightarrow> py_error + int list" where
  "py_range start stop step =
     (if step = 0 then Inl (ValueError ''range() arg 3 must not be zero'')
      else if 0 < step then Inr (range_up start stop step)
      else Inr (range_down start stop step))"

text \<open>
  \<open>xs[lo:hi]\<close>: a negative bound counts from the end, every bound is clamped to the list,
  and an empty interval gives the empty list.
\<close>

definition py_slice :: "'a list \<Rightarrow> int \<Rightarrow> int \<Rightarrow> 'a list" where
  "py_slice xs lo hi =
     (let n = int (length xs);
          l = (if lo < 0 then max 0 (lo + n) else min lo n);
          h = (if hi < 0 then max 0 (hi + n) else min hi n)
      in take (nat (h - l)) (drop (nat l) xs))"

section \<open>Chunking in \_crack\_multi\<close>

text \<open>
  \<^verbatim>\<open>chunks = [passwords[i:i + self.chunk_size]
            for i in range(0, len(passwords), self.chunk_size)]\<close>
\<close>

definition chunks :: "string list \<Rightarrow> int \<Rightarrow> py_error + string list list" where
  "chunks passwords chunk_size =
     (case py_range 0 (int (length passwords)) chunk_size of
        Inl e \<Rightarrow> Inl e
      | Inr starts \<Rightarrow> Inr (map (\<lambda>i. py_slice passwords i (i + chunk_size)) starts))"

section \<open>The decryption probe\<close>

text \<open>
  One pass through the body of the encoding loop of \<open>_try_decrypt\<close> calls
  \<open>office_file.load_key(password=password)\<close>, opens a temporary file and calls
  \<open>office_file.decrypt(temp_file)\<close>. msoffcrypto is an external library; what it does for
  a password is one of: it raises InvalidKeyError, it raises another exception with
  text \<open>msg\<close>, or it decrypts and leaves \<open>n\<close> bytes that \<open>os.path.getsize\<close> sees.
\<close>

datatype lib_outcome = InvalidKeyError | Raised string | Decrypted nat

definition encodings :: "string list" where
  "encodings = [''utf-8'', ''latin1'', ''ascii'', ''cp1252'']"

text \<open>
  The loop of \<open>_try_decrypt\<close> over a list of encodings. The encoding is used in the error
  text only; the library call receives the password alone. The second component is
  \<open>stats.errors\<close> after the call. The temporary files, and the \<open>finally\<close> block that
  removes the last of them, have no part in the result and are left out.
\<close>

fun try_encodings ::
  "bool \<Rightarrow> (string \<Rightarrow> lib_outcome) \<Rightarrow> string \<Rightarrow> string list \<Rightarrow> string list \<Rightarrow> bool \<times> string list"
where
  "try_encodings verify lib password [] errs = (False, errs)"
| "try_encodings verify lib password (encoding # rest) errs =
     (case lib password of
        InvalidKeyError \<Rightarrow> try_encodings verify lib password rest errs
      | Raised msg \<Rightarrow>
          try_encodings verify lib password rest
            (errs @ [''Error with '' @ encoding @ '': '' @ msg])
      | Decrypted n \<Rightarrow>
          if verify \<and> 0 < n then (True, errs)
          else try_encodings verify lib password rest errs)"

definition try_decrypt ::
  "bool \<Rightarrow> (string \<Rightarrow> lib_outcome) \<Rightarrow> string \<Rightarrow> string list \<Rightarrow> bool \<times> string list"
where
  "try_decrypt verify lib password errs = try_encodings verify lib password encodings errs"

section \<open>Cracker, statistics and environment\<close>

datatype CrackingMode = SINGLE | MULTI | HYBRID

record CrackingStats =
  attempts :: int
  start_time :: real
  end_time :: real
  found_password :: string
  success :: bool
  errors :: "string list"

definition new_stats :: CrackingStats where
  "new_stats = \<lparr>attempts = 0, start_time = 0, end_time = 0, found_password = [],
                success = False, errors = []\<rparr>"

record PasswordCracker =
  file_path :: string
  wordlist_path :: string
  mode :: CrackingMode
  threads :: int
  chunk_size :: int
  timeout :: int
  verify_hash :: bool

text \<open>
  What the program reads from outside.
  \<^item> \<open>path_text s\<close> is \<open>str(Path(s))\<close>: the constructor stores \<open>Path(file_path)\<close> and
    \<open>Path(wordlist_path)\<close>, and the messages show the stored paths.
  \<^item> \<open>document_exists\<close>, \<open>document_size\<close>, \<open>wordlist_exists\<close>, \<open>wordlist_size\<close>: what
    \<open>exists()\<close> and \<open>stat().st_size\<close> give when the constructor runs.
  \<^item> \<open>wordlist_read_error\<close>: the exception of \<open>_load_passwords\<close>, if opening or reading
    the wordlist fails when \<open>crack\<close> runs (the file may be gone or unreadable by then).
  \<^item> \<open>wordlist_lines\<close>: the lines that \<open>for line in f\<close> yields, decoded. A \<open>char\<close> stands
    for the character with that code point, so the characters are those below
    U+0100.
  \<^item> \<open>office_error\<close>: the text \<open>str(e)\<close> of the exception of \<open>open(self.file_path, 'rb')\<close>
    or \<open>msoffcrypto.OfficeFile(f)\<close> in a worker, if they fail.
  \<^item> \<open>decrypt_call\<close>: the library's answer for each password.
  \<^item> \<open>t_start\<close>, \<open>t_end\<close>: the two clock readings of \<open>crack\<close>.
  \<^item> \<open>timeout_text\<close>: the text \<open>str(e)\<close> of the exception that
    \<open>future.result(timeout=...)\<close> raises when the wait runs out.
\<close>

record environment =
  path_text :: "string \<Rightarrow> string"
  document_exists :: bool
  document_size :: nat
  wordlist_exists :: bool
  wordlist_size :: nat
  wordlist_read_error :: "py_error option"
  wordlist_lines :: "string list"
  office_error :: "string option"
  decrypt_call :: "string \<Rightarrow> lib_outcome"
  t_start :: real
  t_end :: real
  timeout_text :: string

definition validate_inputs :: "PasswordCracker \<Rightarrow> environment \<Rightarrow> py_error + unit" where
  "validate_inputs c e =
     (if \<not> document_exists e then Inl (FileNotFoundError (''Document not found: '' @ file_path c))
      else if \<not> wordlist_exists e then
        Inl (FileNotFoundError (''Wordlist not found: '' @ wordlist_path c))
      else if document_size e = 0 then Inl (ValueError ''Document is empty'')
      else if wordlist_size e = 0 then Inl (ValueError ''Wordlist is empty'')
      else Inr ())"

text \<open>
  \<open>PasswordCracker.__init__\<close>: the two paths are stored as \<open>Path\<close> objects, the thread
  count is clamped, then the inputs are validated. The fields \<open>file_path\<close> and
  \<open>wordlist_path\<close> of the model hold the text of the stored paths.
\<close>

definition init ::
  "string \<Rightarrow> string \<Rightarrow> CrackingMode \<Rightarrow> int \<Rightarrow> int \<Rightarrow> int \<Rightarrow> bool \<Rightarrow> environment
     \<Rightarrow> py_error + PasswordCracker"
where
  "init file wordlist m t cs tmo verify e =
     (let c = \<lparr>file_path = path_text e file, wordlist_path = path_text e wordlist, mode = m,
                threads = max 1 (min t 32), chunk_size = cs, timeout = tmo,
                verify_hash = verify\<rparr>
      in case validate_inputs c e of Inl err \<Rightarrow> Inl err | Inr _ \<Rightarrow> Inr c)"

text \<open>
  \<open>str.strip()\<close> removes the white space at both ends. Among the characters below
  U+0100 those for which \<open>str.isspace\<close> holds are tab, line feed, vertical tab, form
  feed, carriage return, the four separators U+001C to U+001F, the space, the next
  line control U+0085 and the no-break space U+00A0.
\<close>

definition is_space :: "char \<Rightarrow> bool" where
  "is_space ch = (ch \<in> set [CHR 0x09, CHR 0x0A, CHR 0x0B, CHR 0x0C, CHR 0x0D,
                              CHR 0x1C, CHR 0x1D, CHR 0x1E, CHR 0x1F, CHR 0x20,
                              CHR 0x85, CHR 0xA0])"

definition strip :: "string \<Rightarrow> string" where
  "strip s = rev (dropWhile is_space (rev (dropWhile is_space s)))"

text \<open>
  \<open>_load_passwords\<close>: an exception of \<open>open\<close> or of reading leaves the function;
  otherwise every line is stripped and the non-empty ones are kept, in order.
\<close>

definition load_passwords :: "PasswordCracker \<Rightarrow> environment \<Rightarrow> py_error + string list" where
  "load_passwords c e =
     (case wordlist_read_error e of
        Some err \<Rightarrow> Inl err
      | None \<Rightarrow>
          Inr (filter (\<lambda>password. password \<noteq> [] \<and> 1 \<le> length password)
                 (map strip (wordlist_lines e))))"

section \<open>The worker\<close>

record shared_data =
  found :: bool
  password :: "string option"

definition new_shared :: shared_data where
  "new_shared = \<lparr>found = False, password = None\<rparr>"

text \<open>
  The \<open>for\<close> loop of \<open>_worker\<close>, run by one thread with nothing else running: stop when
  \<open>found\<close> is set; on a match write \<open>found\<close> and \<open>password\<close> and stop; otherwise add one to
  \<open>attempts\<close> and go on. The progress bar and the log are output only and are left
  out.
\<close>

fun worker_loop ::
  "PasswordCracker \<Rightarrow> environment \<Rightarrow> string list \<Rightarrow> shared_data \<Rightarrow> CrackingStats
     \<Rightarrow> shared_data \<times> CrackingStats"
where
  "worker_loop c e [] sh st = (sh, st)"
| "worker_loop c e (p # rest) sh st =
     (if found sh then (sh, st)
      else case try_decrypt (verify_hash c) (decrypt_call e) p (errors st) of
        (ok, errs) \<Rightarrow>
          if ok then (sh\<lparr>found := True, password := Some p\<rparr>, st\<lparr>errors := errs\<rparr>)
          else worker_loop c e rest sh (st\<lparr>errors := errs, attempts := attempts st + 1\<rparr>))"

text \<open>
  \<open>_worker\<close>: opening the document or building the OfficeFile may raise; the handler
  appends \<open>str(e)\<close> to \<open>stats.errors\<close> and the worker returns.
\<close>

definition worker ::
  "PasswordCracker \<Rightarrow> environment \<Rightarrow> string list \<Rightarrow> shared_data \<Rightarrow> CrackingStats
     \<Rightarrow> shared_data \<times> CrackingStats"
where
  "worker c e passwords sh st =
     (case office_error e of
        Some msg \<Rightarrow> (sh, st\<lparr>errors := errors st @ [msg]\<rparr>)
      | None \<Rightarrow> worker_loop c e passwords sh st)"

definition crack_single ::
  "PasswordCracker \<Rightarrow> environment \<Rightarrow> string list \<Rightarrow> CrackingStats
     \<Rightarrow> string option \<times> CrackingStats"
where
  "crack_single c e passwords st =
     (case worker c e passwords new_shared st of (sh, st') \<Rightarrow> (password sh, st'))"

section \<open>Workers running concurrently\<close>

text \<open>
  In \<open>_crack_multi\<close> every chunk is a task submitted to a ThreadPoolExecutor; the threads
  share \<open>shared_data\<close>, \<open>self.stats\<close> and one lock. A task is modelled by the point it has
  reached in \<open>_worker\<close>. A step is what a thread does without another thread being able
  to observe an intermediate state: one read of \<open>shared_data['found']\<close>, one pass of the
  encoding loop (with its \<open>errors.append\<close>), or one \<open>with lock:\<close> block.
  \<^item> \<open>Queued ps\<close>: submitted, not started.
  \<^item> \<open>AtLoop ps\<close>: at the head of the \<open>for\<close> loop, \<open>ps\<close> still to be tried.
  \<^item> \<open>Probing p rest encs\<close>: \<open>found\<close> was read as false; inside \<open>_try_decrypt\<close> for \<open>p\<close>
    with the encodings \<open>encs\<close> still to be tried.
  \<^item> \<open>Matched p\<close>: \<open>_try_decrypt\<close> returned True; before the locked write.
  \<^item> \<open>Missed rest\<close>: \<open>_try_decrypt\<close> returned False; before the locked increment.
  \<^item> \<open>Finished\<close>: the call has returned.
\<close>

datatype worker_state =
    Queued "string list"
  | AtLoop "string list"
  | Probing string "string list" "string list"
  | Matched string
  | Missed "string list"
  | Finished

fun worker_step ::
  "PasswordCracker \<Rightarrow> environment \<Rightarrow> worker_state \<Rightarrow> shared_data \<Rightarrow> CrackingStats
     \<Rightarrow> worker_state \<times> shared_data \<times> CrackingStats"
where
  "worker_step c e (Queued ps) sh st =
     (case office_error e of
        Some msg \<Rightarrow> (Finished, sh, st\<lparr>errors := errors st @ [msg]\<rparr>)
      | None \<Rightarrow> (AtLoop ps, sh, st))"
| "worker_step c e (AtLoop []) sh st = (Finished, sh, st)"
| "worker_step c e (AtLoop (p # rest)) sh st =
     (if found sh then (Finished, sh, st) else (Probing p rest encodings, sh, st))"
| "worker_step c e (Probing p rest []) sh st = (Missed rest, sh, st)"
| "worker_step c e (Probing p rest (encoding # encs)) sh st =
     (case decrypt_call e p of
        InvalidKeyError \<Rightarrow> (Probing p rest encs, sh, st)
      | Raised msg \<Rightarrow>
          (Probing p rest encs, sh,
           st\<lparr>errors := errors st @ [''Error with '' @ encoding @ '': '' @ msg]\<rparr>)
      | Decrypted n \<Rightarrow>
          if verify_hash c \<and> 0 < n then (Matched p, sh, st)
          else (Probing p rest encs, sh, st))"
| "worker_step c e (Matched p) sh st =
     (Finished, sh\<lparr>found := True, password := Some p\<rparr>, st)"
| "worker_step c e (Missed rest) sh st =
     (AtLoop rest, sh, st\<lparr>attempts := attempts st + 1\<rparr>)"
| "worker_step c e Finished sh st = (Finished, sh, st)"

fun is_queued :: "worker_state \<Rightarrow> bool" where
  "is_queued (Queued ps) = True"
| "is_queued w = False"

fun is_running :: "worker_state \<Rightarrow> bool" where
  "is_running (Queued ps) = False"
| "is_running Finished = False"
| "is_running w = True"

text \<open>
  The executor starts tasks in the order of submission and keeps at most \<open>max_workers\<close>
  of them running; a running task can always take its next step.
\<close>

definition may_run :: "int \<Rightarrow> worker_state list \<Rightarrow> nat \<Rightarrow> bool" where
  "may_run max_workers ws i =
     (i < length ws \<and>
      (case ws ! i of
         Queued ps \<Rightarrow>
           list_all (\<lambda>w. \<not> is_queued w) (take i ws) \<and>
           int (length (filter is_running ws)) < max_workers
       | Finished \<Rightarrow> False
       | _ \<Rightarrow> True))"

text \<open>
  The state of one \<open>_crack_multi\<close> call: the tasks, the shared dictionary, the
  statistics, and the index of the future that the waiting loop of the main thread
  has reached.
\<close>

record pool =
  tasks :: "worker_state list"
  shared :: shared_data
  stats :: CrackingStats
  waiting :: nat

text \<open>
  What can happen next: task \<open>i\<close> takes a step, or the wait of the main thread runs out.
  \<open>future.result(timeout=self.timeout/len(futures))\<close> returns at once for a finished
  future, so a wait can only run out on the first future, from \<open>waiting\<close> on, that has
  not finished; the handler appends \<open>str(e)\<close> and the loop goes to the next future.
\<close>

datatype action = Step nat | Timeout

definition next_unfinished :: "worker_state list \<Rightarrow> nat \<Rightarrow> nat option" where
  "next_unfinished ws k = find (\<lambda>i. ws ! i \<noteq> Finished) [k ..< length ws]"

fun perform :: "PasswordCracker \<Rightarrow> environment \<Rightarrow> action \<Rightarrow> pool \<Rightarrow> pool" where
  "perform c e (Step i) s =
     (if may_run (threads c) (tasks s) i then
        (case worker_step c e (tasks s ! i) (shared s) (stats s) of
           (w, sh, st) \<Rightarrow> s\<lparr>tasks := (tasks s)[i := w], shared := sh, stats := st\<rparr>)
      else s)"
| "perform c e Timeout s =
     (case next_unfinished (tasks s) (waiting s) of
        None \<Rightarrow> s
      | Some k \<Rightarrow>
          s\<lparr>stats := (stats s)\<lparr>errors := errors (stats s) @ [timeout_text e]\<rparr>,
            waiting := Suc k\<rparr>)"

definition run_schedule :: "PasswordCracker \<Rightarrow> environment \<Rightarrow> action list \<Rightarrow> pool \<Rightarrow> pool" where
  "run_schedule c e sched s = fold (perform c e) sched s"

text \<open>
  Leaving the \<open>with ThreadPoolExecutor(...)\<close> block waits for every task. Whatever a
  task has not done when the schedule ends is done here, task after task in the
  order of submission.
\<close>

fun finish_worker ::
  "PasswordCracker \<Rightarrow> environment \<Rightarrow> worker_state \<Rightarrow> shared_data \<times> CrackingStats
     \<Rightarrow> shared_data \<times> CrackingStats"
where
  "finish_worker c e (Queued ps) (sh, st) = worker c e ps sh st"
| "finish_worker c e (AtLoop ps) (sh, st) = worker_loop c e ps sh st"
| "finish_worker c e (Probing p rest encs) (sh, st) =
     (case try_encodings (verify_hash c) (decrypt_call e) p encs (errors st) of
        (ok, errs) \<Rightarrow>
          if ok then (sh\<lparr>found := True, password := Some p\<rparr>, st\<lparr>errors := errs\<rparr>)
          else worker_loop c e rest sh (st\<lparr>errors := errs, attempts := attempts st + 1\<rparr>))"
| "finish_worker c e (Matched p) (sh, st) = (sh\<lparr>found := True, password := Some p\<rparr>, st)"
| "finish_worker c e (Missed rest) (sh, st) =
     worker_loop c e rest sh (st\<lparr>attempts := attempts st + 1\<rparr>)"
| "finish_worker c e Finished (sh, st) = (sh, st)"

definition drain :: "PasswordCracker \<Rightarrow> environment \<Rightarrow> pool \<Rightarrow> shared_data \<times> CrackingStats" where
  "drain c e s = fold (finish_worker c e) (tasks s) (shared s, stats s)"

section \<open>The three strategies and crack\<close>

text \<open>
  \<open>_crack_multi\<close>. The schedule is the order in which the threads take their steps
  and the waits run out; it is an input, and a property of the parallel strategy is a
  property for every schedule. Computing the chunks raises for a zero chunk size, and
  the executor raises for \<open>max_workers <= 0\<close>. The statistics are returned together
  with the result or the exception, since \<open>self.stats\<close> keeps what was written before
  an exception.
\<close>

definition initial_pool :: "string list list \<Rightarrow> CrackingStats \<Rightarrow> pool" where
  "initial_pool cks st = \<lparr>tasks = map Queued cks, shared = new_shared, stats = st, waiting = 0\<rparr>"

definition crack_multi ::
  "PasswordCracker \<Rightarrow> environment \<Rightarrow> action list \<Rightarrow> string list \<Rightarrow> CrackingStats
     \<Rightarrow> (py_error + string option) \<times> CrackingStats"
where
  "crack_multi c e sched passwords st =
     (case chunks passwords (chunk_size c) of
        Inl err \<Rightarrow> (Inl err, st)
      | Inr cks \<Rightarrow>
          if threads c \<le> 0 then (Inl (ValueError ''max_workers must be greater than 0''), st)
          else case drain c e (run_schedule c e sched (initial_pool cks st)) of
            (sh, st') \<Rightarrow> (Inr (password sh), st'))"

text \<open>Python's truth value of an \<open>Optional[str]\<close>: None and the empty string are false.\<close>

fun truthy :: "string option \<Rightarrow> bool" where
  "truthy None = False"
| "truthy (Some p) = (p \<noteq> [])"

definition crack_hybrid ::
  "PasswordCracker \<Rightarrow> environment \<Rightarrow> action list \<Rightarrow> string list \<Rightarrow> CrackingStats
     \<Rightarrow> (py_error + string option) \<times> CrackingStats"
where
  "crack_hybrid c e sched passwords st =
     (let common_passwords = py_slice passwords 0 100 in
      case crack_single c e common_passwords st of
        (result, st1) \<Rightarrow>
          if truthy result then (Inr result, st1)
          else let remaining_passwords = py_slice passwords 100 (int (length passwords))
               in crack_multi c e sched remaining_passwords st1)"

text \<open>The \<open>if\<close>/\<open>elif\<close>/\<open>else\<close> of \<open>crack\<close> that picks the strategy.\<close>

definition run_mode ::
  "PasswordCracker \<Rightarrow> environment \<Rightarrow> action list \<Rightarrow> string list \<Rightarrow> CrackingStats
     \<Rightarrow> (py_error + string option) \<times> CrackingStats"
where
  "run_mode c e sched passwords st =
     (if mode c = SINGLE then
        (case crack_single c e passwords st of (result, st') \<Rightarrow> (Inr result, st'))
      else if mode c = MULTI then crack_multi c e sched passwords st
      else crack_hybrid c e sched passwords st)"

text \<open>
  The \<open>except Exception\<close> handler of \<open>crack\<close>: the text of the exception is appended and
  the triple with result None is returned.
\<close>

definition crack_failed ::
  "environment \<Rightarrow> py_error \<Rightarrow> CrackingStats \<Rightarrow> string option \<times> real \<times> CrackingStats"
where
  "crack_failed e err st =
     (None, t_end e - start_time st, st\<lparr>errors := errors st @ [str_of err]\<rparr>)"

text \<open>
  \<open>crack\<close>. The result type has a place for an exception that leaves \<open>crack\<close>; every
  exception of the \<open>try\<close> block is caught by the handler.
\<close>

definition crack ::
  "PasswordCracker \<Rightarrow> environment \<Rightarrow> action list
     \<Rightarrow> py_error + (string option \<times> real \<times> CrackingStats)"
where
  "crack c e sched =
     (let st0 = new_stats\<lparr>start_time := t_start e\<rparr> in
      case load_passwords c e of
        Inl err \<Rightarrow> Inr (crack_failed e err st0)
      | Inr passwords \<Rightarrow>
          if passwords = [] then
            Inr (crack_failed e (ValueError ''No valid passwords in wordlist'') st0)
          else case run_mode c e sched passwords st0 of
            (Inl err, st1) \<Rightarrow> Inr (crack_failed e err st1)
          | (Inr result, st1) \<Rightarrow>
              let st2 = st1\<lparr>end_time := t_end e, success := truthy result,
                           found_password := (case result of None \<Rightarrow> [] | Some p \<Rightarrow> p)\<rparr>
              in Inr (result, end_time st2 - start_time st2, st2))"

text \<open>
  The \<open>try\<close> block of \<open>main\<close>: build the cracker, then call \<open>crack\<close>. An exception of the
  constructor reaches the caller and \<open>crack\<close> is never called.
\<close>

definition construct_and_crack ::
  "string \<Rightarrow> string \<Rightarrow> CrackingMode \<Rightarrow> int \<Rightarrow> int \<Rightarrow> int \<Rightarrow> bool \<Rightarrow> environment
     \<Rightarrow> action list \<Rightarrow> py_error + (string option \<times> real \<times> CrackingStats)"
where
  "construct_and_crack file wordlist m t cs tmo verify e sched =
     (case init file wordlist m t cs tmo verify e of
        Inl err \<Rightarrow> Inl err
      | Inr c \<Rightarrow> crack c e sched)"

section \<open>Names used in the statements\<close>

text \<open>What \<open>_try_decrypt\<close> returns for a candidate, and what it appends to \<open>stats.errors\<close>.\<close>

definition is_match :: "PasswordCracker \<Rightarrow> environment \<Rightarrow> string \<Rightarrow> bool" where
  "is_match c e p = fst (try_decrypt (verify_hash c) (decrypt_call e) p [])"

definition probe_errors :: "PasswordCracker \<Rightarrow> environment \<Rightarrow> string \<Rightarrow> string list" where
  "probe_errors c e p = snd (try_decrypt (verify_hash c) (decrypt_call e) p [])"

text \<open>
  \<open>str(Path(s))\<close> on a POSIX system, for the examples: the path is split at the
  slashes, empty parts and parts that are a single dot are dropped, a leading slash
  is kept (two leading slashes are kept as two, three or more become one), and the
  empty path is a dot.
\<close>

fun split_slash :: "string \<Rightarrow> string list" where
  "split_slash [] = [[]]"
| "split_slash (ch # s) =
     (if ch = CHR ''/'' then [] # split_slash s
      else case split_slash s of [] \<Rightarrow> [[ch]] | part # parts \<Rightarrow> (ch # part) # parts)"

fun join_slash :: "string list \<Rightarrow> string" where
  "join_slash [] = []"
| "join_slash [part] = part"
| "join_slash (part # parts) = part @ ''/'' @ join_slash parts"

definition posix_path_text :: "string \<Rightarrow> string" where
  "posix_path_text s =
     (let parts = filter (\<lambda>part. part \<noteq> [] \<and> part \<noteq> ''.'') (split_slash s);
          root = (if take 2 s = ''//'' \<and> take 3 s \<noteq> ''///'' then ''//''
                  else if take 1 s = ''/'' then ''/'' else [])
      in if root = [] \<and> parts = [] then ''.'' else root @ join_slash parts)"

text \<open>
  A run used in the examples: the wordlist holds aaa, bbb, secret, ccc, one per line,
  and the document opens with secret only.
\<close>

definition example_environment :: environment where
  "example_environment =
     \<lparr>path_text = posix_path_text,
      document_exists = True, document_size = 4096, wordlist_exists = True, wordlist_size = 19,
      wordlist_read_error = None,
      wordlist_lines = [''aaa'' @ [CHR 0x0A], ''bbb'' @ [CHR 0x0A], ''secret'' @ [CHR 0x0A],
                        ''ccc'' @ [CHR 0x0A]],
      office_error = None,
      decrypt_call = (\<lambda>p. if p = ''secret'' then Decrypted 5 else InvalidKeyError),
      t_start = 1, t_end = 3, timeout_text = ''''\<rparr>"

definition example_cracker :: PasswordCracker where
  "example_cracker =
     \<lparr>file_path = ''doc.docx'', wordlist_path = ''words.txt'', mode = SINGLE, threads = 2,
      chunk_size = 2, timeout = 3600, verify_hash = True\<rparr>"

text \<open>
  The hybrid strategy as the specification words it: the sequential strategy on the
  first 100 candidates (all of them if there are fewer); if that returns a password,
  that password; otherwise the result of the parallel strategy on the remaining
  candidates.
\<close>

definition hybrid_spec ::
  "PasswordCracker \<Rightarrow> environment \<Rightarrow> action list \<Rightarrow> string list \<Rightarrow> CrackingStats
     \<Rightarrow> (py_error + string option) \<times> CrackingStats"
where
  "hybrid_spec c e sched passwords st =
     (case crack_single c e (take 100 passwords) st of
        (Some p, st1) \<Rightarrow> (Inr (Some p), st1)
      | (None, st1) \<Rightarrow> crack_multi c e sched (drop 100 passwords) st1)"


definition blank_environment :: environment where
  "blank_environment =
     example_environment\<lparr>wordlist_size := 1, wordlist_lines := [[CHR 0x0A]]\<rparr>"

definition missing_environment :: environment where
  "missing_environment = example_environment\<lparr>document_exists := False\<rparr>"

section \<open>Names used in the proofs about concurrent workers\<close>

text \<open>
  For a task: how many times it will still add one to \<open>attempts\<close> when nothing
  matches, which candidates it may still try, and whether it is at a point that a
  run without a match can reach.
\<close>

fun todo :: "worker_state \<Rightarrow> nat" where
  "todo (Queued ps) = length ps"
| "todo (AtLoop ps) = length ps"
| "todo (Probing p rest encs) = Suc (length rest)"
| "todo (Matched p) = 0"
| "todo (Missed rest) = Suc (length rest)"
| "todo Finished = 0"

fun pending :: "worker_state \<Rightarrow> string list" where
  "pending (Queued ps) = ps"
| "pending (AtLoop ps) = ps"
| "pending (Probing p rest encs) = p # rest"
| "pending (Matched p) = [p]"
| "pending (Missed rest) = rest"
| "pending Finished = []"

fun unmatched :: "worker_state \<Rightarrow> bool" where
  "unmatched (Probing p rest encs) = (set encs \<subseteq> set encodings)"
| "unmatched (Matched p) = False"
| "unmatched w = True"

text \<open>
  \<open>quiet c e P E\<close>: no worker fails to open the document, no candidate in \<open>P\<close> matches,
  and the entries that the probes of \<open>P\<close> append are in \<open>E\<close>.
\<close>

definition quiet ::
  "PasswordCracker \<Rightarrow> environment \<Rightarrow> string set \<Rightarrow> string set \<Rightarrow> bool" where
  "quiet c e P E =
     (office_error e = None \<and> (\<forall>p\<in>P. \<not> is_match c e p \<and> set (probe_errors c e p) \<subseteq> E))"

definition no_match_inv :: "string set \<Rightarrow> string set \<Rightarrow> int \<Rightarrow> pool \<Rightarrow> bool" where
  "no_match_inv P E N s =
     (shared s = new_shared \<and>
      (\<forall>w\<in>set (tasks s). unmatched w \<and> set (pending w) \<subseteq> P) \<and>
      attempts (stats s) + int (sum_list (map todo (tasks s))) = N \<and>
      set (errors (stats s)) \<subseteq> E)"

text \<open>A run in which nothing matches and the library raises on bbb.\<close>

definition silent_environment :: environment where
  "silent_environment =
     example_environment\<lparr>decrypt_call :=
       (\<lambda>p. if p = ''bbb'' then Raised ''boom'' else InvalidKeyError)\<rparr>"

definition parallel_cracker :: PasswordCracker where
  "parallel_cracker = example_cracker\<lparr>mode := MULTI\<rparr>"

text \<open>The same cracker started with \<open>--timeout 0\<close>: every wait runs out at once.\<close>

definition hasty_cracker :: PasswordCracker where
  "hasty_cracker = parallel_cracker\<lparr>timeout := 0\<rparr>"

text \<open>
  A run with a race: a document that two candidates open, one candidate per chunk,
  and a schedule in which both workers read \<open>found\<close> as false, both probes match,
  and worker 0 has done its locked write while worker 1 is about to do its own.
\<close>

definition two_keys_environment :: environment where
  "two_keys_environment =
     example_environment\<lparr>decrypt_call :=
       (\<lambda>p. if p = ''secret'' \<or> p = ''hunter2'' then Decrypted 5 else InvalidKeyError)\<rparr>"

definition racing_cracker :: PasswordCracker where
  "racing_cracker = example_cracker\<lparr>mode := MULTI, chunk_size := 1\<rparr>"

definition racing_schedule :: "action list" where
  "racing_schedule = [Step 0, Step 1, Step 0, Step 1, Step 0, Step 1, Step 0]"

definition race_state :: pool where
  "race_state =
     run_schedule racing_cracker two_keys_environment racing_schedule
       (initial_pool [[''secret''], [''hunter2'']] new_stats)"

text \<open>
  The argument \<open>self.timeout/len(futures)\<close> of \<open>future.result\<close>, for \<open>n\<close> futures. The
  call is inside the loop over the futures, so it is never evaluated for \<open>n = 0\<close>.
\<close>

definition wait_share :: "PasswordCracker \<Rightarrow> nat \<Rightarrow> real" where
  "wait_share c n = real_of_int (timeout c) / real n"

text \<open>
  \<open>tracks e n s s'\<close>: the pool \<open>s\<close> is the pool \<open>s'\<close> except that \<open>n\<close> waits have run out
  in \<open>s\<close>: same tasks, same shared dictionary, same \<open>attempts\<close>, and the same error
  entries but for \<open>n\<close> more entries of the timeout text.
\<close>

definition tracks :: "environment \<Rightarrow> nat \<Rightarrow> pool \<Rightarrow> pool \<Rightarrow> bool" where
  "tracks e n s s' =
     (tasks s = tasks s' \<and> shared s = shared s' \<and>
      attempts (stats s) = attempts (stats s') \<and>
      (\<forall>x. count_list (errors (stats s)) x =
            count_list (errors (stats s')) x + (if x = timeout_text e then n else 0)) \<and>
      n \<le> waiting s \<and> waiting s \<le> length (tasks s))"

text \<open>
  One step of a worker that runs with no other thread, and the states it reaches by
  such steps.
\<close>

definition step_alone ::
  "PasswordCracker \<Rightarrow> environment \<Rightarrow> worker_state \<times> shared_data \<times> CrackingStats
     \<Rightarrow> worker_state \<times> shared_data \<times> CrackingStats"
where
  "step_alone c e x = (case x of (w, sh, st) \<Rightarrow> worker_step c e w sh st)"

definition reaches ::
  "PasswordCracker \<Rightarrow> environment \<Rightarrow> worker_state \<times> shared_data \<times> CrackingStats
     \<Rightarrow> worker_state \<times> shared_data \<times> CrackingStats \<Rightarrow> bool"
where
  "reaches c e x y = (\<exists>n. (step_alone c e ^^ n) x = y)"

section \<open>Names used in the statements and proofs about what crack returns\<close>













section \<open>Ranges, slices and chunks\<close>

lemma range_up_step:
  "0 < step \<Longrightarrow> i < stop \<Longrightarrow> range_up i stop step = i # range_up (i + step) stop step"
  by (subst range_up.simps) simp

lemma range_up_stop: "\<not> (0 < step \<and> i < stop) \<Longrightarrow> range_up i stop step = []"
  by (subst range_up.simps) simp

lemma range_down_stop: "\<not> (step < 0 \<and> stop < i) \<Longrightarrow> range_down i stop step = []"
  by (subst range_down.simps) simp

lemma py_slice_chunk:
  "0 \<le> i \<Longrightarrow> 0 < cs \<Longrightarrow> py_slice xs i (i + cs) = take (nat cs) (drop (nat i) xs)"
proof -
  assume i: "0 \<le> i" and cs: "0 < cs"
  let ?n = "int (length xs)"
  consider "i + cs \<le> ?n" | "i \<le> ?n" "?n < i + cs" | "?n < i" by linarith
  then show ?thesis
  proof cases
    case 1
    then have "py_slice xs i (i + cs) = take (nat (i + cs - i)) (drop (nat i) xs)"
      using i cs by (simp add: py_slice_def Let_def min_def)
    then show ?thesis by simp
  next
    case 2
    then have "py_slice xs i (i + cs) = take (nat (?n - i)) (drop (nat i) xs)"
      using i cs by (simp add: py_slice_def Let_def min_def)
    moreover have "length (drop (nat i) xs) \<le> nat (?n - i)" using i by simp
    moreover have "length (drop (nat i) xs) \<le> nat cs" using i 2 by simp
    ultimately show ?thesis by simp
  next
    case 3
    then have "py_slice xs i (i + cs) = take (nat (?n - ?n)) (drop (nat ?n) xs)"
      using i cs by (simp add: py_slice_def Let_def min_def)
    moreover have "drop (nat i) xs = []" using 3 by simp
    ultimately show ?thesis by simp
  qed
qed

lemma concat_range_up:
  "0 \<le> i \<Longrightarrow> 0 < cs \<Longrightarrow>
   concat (map (\<lambda>k. py_slice xs k (k + cs)) (range_up i (int (length xs)) cs)) = drop (nat i) xs"
proof (induction i "int (length xs)" cs rule: range_up.induct)
  case (1 i step)
  show ?case
  proof (cases "i < int (length xs)")
    case True
    have d: "drop (nat (i + step)) xs = drop (nat step) (drop (nat i) xs)"
      using 1(2,3) by (simp add: nat_add_distrib add.commute)
    have "range_up i (int (length xs)) step = i # range_up (i + step) (int (length xs)) step"
      using True 1(3) by (simp add: range_up_step)
    moreover have "concat (map (\<lambda>k. py_slice xs k (k + step))
        (range_up (i + step) (int (length xs)) step)) = drop (nat (i + step)) xs"
      using 1(1) 1(2,3) True by simp
    ultimately have "concat (map (\<lambda>k. py_slice xs k (k + step)) (range_up i (int (length xs)) step))
        = take (nat step) (drop (nat i) xs) @ drop (nat step) (drop (nat i) xs)"
      using d 1(2,3) by (simp only: list.map concat.simps py_slice_chunk)
    then show ?thesis by (simp only: append_take_drop_id)
  next
    case False
    then show ?thesis using 1 by (simp add: range_up_stop)
  qed
qed

lemma range_up_nth:
  "0 < step \<Longrightarrow> j < length (range_up i stop step) \<Longrightarrow>
   range_up i stop step ! j = i + int j * step \<and> i + int j * step < stop"
proof (induction i stop step arbitrary: j rule: range_up.induct)
  case (1 i stop step)
  show ?case
  proof (cases "i < stop")
    case True
    show ?thesis
    proof (cases j)
      case 0
      then show ?thesis using 1(2) True by (simp add: range_up_step)
    next
      case (Suc k)
      then have "k < length (range_up (i + step) stop step)"
        using 1(2,3) True by (simp add: range_up_step)
      from 1(1)[OF _ 1(2) this] 1(2) True
      show ?thesis using Suc by (simp add: range_up_step algebra_simps)
    qed
  next
    case False
    then show ?thesis using 1(3) by (simp add: range_up_stop)
  qed
qed

text \<open>
  C4. For every candidate sequence and every positive chunk size, the chunks of
  \<open>_crack_multi\<close> are computed without an exception, their concatenation in order is the
  candidate sequence, and chunk \<open>j\<close> is the contiguous run of at most \<open>chunk_size\<close>
  candidates that starts at position \<open>j * chunk_size\<close>; no chunk is empty. So the chunks
  neither overlap nor leave a gap.
\<close>

theorem chunks_partition:
  assumes "0 < cs"
  shows "\<exists>cks. chunks passwords cs = Inr cks \<and> concat cks = passwords \<and>
           (\<forall>j < length cks.
              cks ! j = take (nat cs) (drop (j * nat cs) passwords) \<and>
              cks ! j \<noteq> [])"
proof -
  let ?starts = "range_up 0 (int (length passwords)) cs"
  let ?cks = "map (\<lambda>i. py_slice passwords i (i + cs)) ?starts"
  have eq: "chunks passwords cs = Inr ?cks"
    using assms by (simp add: chunks_def py_range_def)
  have cat: "concat ?cks = passwords"
    using concat_range_up [of 0 cs passwords] assms by simp
  have each: "?cks ! j = take (nat cs) (drop (j * nat cs) passwords) \<and> ?cks ! j \<noteq> []"
    if "j < length ?cks" for j
  proof -
    from that have j: "j < length ?starts" by simp
    from range_up_nth [OF assms j]
    have st: "?starts ! j = int j * cs" and lt: "int j * cs < int (length passwords)"
      by simp_all
    have "nat (int j * cs) = j * nat cs"
      using assms by (simp add: nat_mult_distrib)
    moreover have "0 \<le> int j * cs" using assms by simp
    ultimately have a: "?cks ! j = take (nat cs) (drop (j * nat cs) passwords)"
      using j st assms by (simp add: py_slice_chunk)
    have "j * nat cs < length passwords"
    proof -
      have "nat (int j * cs) < nat (int (length passwords))"
        using lt \<open>0 \<le> int j * cs\<close> by linarith
      then show ?thesis using \<open>nat (int j * cs) = j * nat cs\<close> by simp
    qed
    then show ?thesis using a assms by simp
  qed
  show ?thesis using eq cat each by blast
qed

theorem chunks_partition_witness:
  "(0::int) < 2 \<and> chunks [''aaa'', ''bbb'', ''secret'', ''ccc'', ''ddd''] 2
     = Inr [[''aaa'', ''bbb''], [''secret'', ''ccc''], [''ddd'']]"
proof -
  have h: "(0::int) < 2" by simp
  from chunks_partition [OF h, of "[''aaa'', ''bbb'', ''secret'', ''ccc'', ''ddd'']"]
  obtain cks where c: "chunks [''aaa'', ''bbb'', ''secret'', ''ccc'', ''ddd''] 2 = Inr cks" by blast
  show ?thesis using h c by (simp add: chunks_def py_range_def py_slice_def range_up.simps)
qed

section \<open>The probe\<close>

lemma try_encodings_cases:
  "try_encodings v lib p encs errs =
     (case lib p of
        InvalidKeyError \<Rightarrow> (False, errs)
      | Raised msg \<Rightarrow> (False, errs @ map (\<lambda>enc. ''Error with '' @ enc @ '': '' @ msg) encs)
      | Decrypted n \<Rightarrow> (v \<and> 0 < n \<and> encs \<noteq> [], errs))"
  by (induction encs arbitrary: errs) (auto split: lib_outcome.splits)

lemma try_decrypt_errs:
  "try_decrypt v lib p errs = (fst (try_decrypt v lib p []), errs @ snd (try_decrypt v lib p []))"
  by (simp add: try_decrypt_def try_encodings_cases split: lib_outcome.splits)

lemma try_decrypt_probe:
  "try_decrypt (verify_hash c) (decrypt_call e) p errs = (is_match c e p, errs @ probe_errors c e p)"
  using try_decrypt_errs [of "verify_hash c" "decrypt_call e" p errs]
  by (simp add: is_match_def probe_errors_def)

lemma try_decrypt_unverified: "fst (try_decrypt False lib p errs) = False"
  by (simp add: try_decrypt_def try_encodings_cases split: lib_outcome.splits)

lemma example_environment_fields:
  "t_start example_environment = 1" "t_end example_environment = 3"
  "office_error example_environment = None"
  "decrypt_call example_environment = (\<lambda>p. if p = ''secret'' then Decrypted 5 else InvalidKeyError)"
  "timeout_text example_environment = []"
  by (simp_all add: example_environment_def)

lemma example_cracker_fields:
  "mode example_cracker = SINGLE" "verify_hash example_cracker = True"
  "threads example_cracker = 2" "chunk_size example_cracker = 2"
  by (simp_all add: example_cracker_def)

lemma load_example:
  "load_passwords example_cracker example_environment = Inr [''aaa'', ''bbb'', ''secret'', ''ccc'']"
  by (simp add: load_passwords_def example_environment_def strip_def is_space_def)

text \<open>
  C10. The four passes of the encoding loop make the same library call, so what
  \<open>_try_decrypt\<close> returns is what a loop over one encoding returns; and a candidate on
  which the library raises gets one entry in \<open>stats.errors\<close> for every pass, four entries
  with the same exception text, each with the name of its encoding. Any other
  candidate adds nothing.
\<close>

theorem try_decrypt_encoding_loop:
  "fst (try_decrypt verify lib p errs) = fst (try_encodings verify lib p [''utf-8''] errs) \<and>
   snd (try_decrypt verify lib p errs) =
     errs @ (case lib p of
               Raised msg \<Rightarrow> [''Error with utf-8: '' @ msg, ''Error with latin1: '' @ msg,
                               ''Error with ascii: '' @ msg, ''Error with cp1252: '' @ msg]
             | _ \<Rightarrow> [])"
  by (simp add: try_decrypt_def encodings_def try_encodings_cases split: lib_outcome.splits)

text \<open>
  C6. With \<open>verify_hash\<close> false the statement \<open>return True\<close> is never reached: for the
  password that decrypts the example document to 5 bytes, \<open>_try_decrypt\<close> returns False
  without verification and True with it.
\<close>

theorem try_decrypt_without_verification_example:
  "try_decrypt False (decrypt_call example_environment) ''secret'' [] = (False, []) \<and>
   try_decrypt True (decrypt_call example_environment) ''secret'' [] = (True, [])"
  by (simp add: try_decrypt_def encodings_def example_environment_def)

section \<open>The sequential strategy\<close>

text \<open>
  C1. On the candidates aaa, bbb, secret, ccc in sequential mode \<open>crack\<close> returns
  secret, and \<open>stats.attempts\<close> is 2: the two candidates that failed. The probe that
  matched is not counted, because the loop leaves before the increment.
\<close>

theorem crack_single_attempts_example:
  "crack example_cracker example_environment [] =
     Inr (Some ''secret'', 2,
          \<lparr>attempts = 2, start_time = 1, end_time = 3, found_password = ''secret'',
           success = True, errors = []\<rparr>)"
proof -
  have "run_mode example_cracker example_environment [] [''aaa'', ''bbb'', ''secret'', ''ccc'']
          (new_stats\<lparr>start_time := 1\<rparr>) =
        (Inr (Some ''secret''), new_stats\<lparr>start_time := 1, attempts := 2\<rparr>)"
    by (simp add: run_mode_def crack_single_def worker_def new_shared_def new_stats_def
        try_decrypt_def encodings_def example_environment_fields example_cracker_fields)
  then show ?thesis
    by (simp add: crack_def load_example Let_def example_environment_fields new_stats_def)
qed

lemma is_match_iff:
  "is_match c e p \<longleftrightarrow> verify_hash c \<and> (\<exists>n. 0 < n \<and> decrypt_call e p = Decrypted n)"
  by (auto simp: is_match_def try_decrypt_def encodings_def try_encodings_cases
      split: lib_outcome.splits)

lemma probe_errors_eq:
  "probe_errors c e p =
     (case decrypt_call e p of
        Raised msg \<Rightarrow> map (\<lambda>enc. ''Error with '' @ enc @ '': '' @ msg) encodings
      | _ \<Rightarrow> [])"
  by (simp add: probe_errors_def try_decrypt_def try_encodings_cases split: lib_outcome.splits)

lemma probe_errors_match: "is_match c e p \<Longrightarrow> probe_errors c e p = []"
  by (auto simp: is_match_iff probe_errors_eq)

lemma worker_loop_found: "found sh \<Longrightarrow> worker_loop c e ps sh st = (sh, st)"
  by (cases ps) simp_all

lemma worker_loop_no_match:
  "\<not> found sh \<Longrightarrow> \<forall>p\<in>set ps. \<not> is_match c e p \<Longrightarrow>
   worker_loop c e ps sh st =
     (sh, st\<lparr>errors := errors st @ concat (map (probe_errors c e) ps),
            attempts := attempts st + int (length ps)\<rparr>)"
proof (induction ps arbitrary: st)
  case Nil
  then show ?case by simp
next
  case (Cons p ps)
  then show ?case by (simp add: try_decrypt_probe)
qed

lemma worker_loop_first_match:
  "\<not> found sh \<Longrightarrow> \<forall>p\<in>set pre. \<not> is_match c e p \<Longrightarrow> is_match c e q \<Longrightarrow>
   worker_loop c e (pre @ q # post) sh st =
     (sh\<lparr>found := True, password := Some q\<rparr>,
      st\<lparr>errors := errors st @ concat (map (probe_errors c e) pre),
         attempts := attempts st + int (length pre)\<rparr>)"
proof (induction pre arbitrary: st)
  case Nil
  then show ?case by (simp add: try_decrypt_probe probe_errors_match)
next
  case (Cons p pre)
  then show ?case by (simp add: try_decrypt_probe)
qed

lemma worker_loop_password:
  "worker_loop c e ps sh st = (sh', st') \<Longrightarrow>
   sh' = sh \<or> (\<exists>p\<in>set ps. is_match c e p \<and> sh' = sh\<lparr>found := True, password := Some p\<rparr>)"
proof (induction ps arbitrary: st)
  case Nil
  then show ?case by simp
next
  case (Cons p ps)
  then show ?case
    by (auto simp: try_decrypt_probe split: if_splits)
qed

section \<open>The hybrid strategy\<close>

lemma py_slice_prefix: "py_slice xs 0 100 = take 100 xs"
  by (simp add: py_slice_def Let_def min_def)

lemma py_slice_suffix: "py_slice xs 100 (int (length xs)) = drop 100 xs"
  by (auto simp: py_slice_def Let_def min_def)

lemma crack_single_result:
  "crack_single c e ps st = (Some p, st') \<Longrightarrow> p \<in> set ps \<and> is_match c e p"
proof -
  assume a: "crack_single c e ps st = (Some p, st')"
  show ?thesis
  proof (cases "office_error e")
    case None
    obtain sh' st'' where w: "worker_loop c e ps new_shared st = (sh', st'')"
      by (cases "worker_loop c e ps new_shared st")
    with a None have p: "password sh' = Some p"
      by (simp add: crack_single_def worker_def)
    from worker_loop_password [OF w] p show ?thesis
      by (auto simp: new_shared_def)
  next
    case (Some msg)
    with a show ?thesis by (simp add: crack_single_def worker_def new_shared_def)
  qed
qed

lemma crack_single_match:
  assumes "office_error e = None" and "\<exists>p\<in>set ps. is_match c e p"
  shows "\<exists>p st'. crack_single c e ps st = (Some p, st') \<and> p \<in> set ps \<and> is_match c e p"
proof -
  from assms(2) obtain pre q post where
    ps: "ps = pre @ q # post" and q: "is_match c e q" and pre: "\<forall>p\<in>set pre. \<not> is_match c e p"
    by (metis split_list_first_prop)
  have "\<not> found new_shared" by (simp add: new_shared_def)
  from worker_loop_first_match [OF this pre q, of post st] assms(1) ps q
  show ?thesis by (simp add: crack_single_def worker_def)
qed

text \<open>
  C3. For every sequence of non-empty candidates, \<open>_crack_hybrid\<close> is the composition
  the specification describes, result and statistics alike: sequential on the first
  100 candidates, and parallel on the rest when that found nothing. In particular,
  when no worker fails to open the document and a candidate among the first 100
  matches, the hybrid run returns what the sequential run on that prefix returns.
  (Candidates are non-empty by construction in \<open>_load_passwords\<close>; the test
  \<open>if result:\<close> would take an empty password for no result.)
\<close>

theorem crack_hybrid_composition:
  assumes "[] \<notin> set passwords"
  shows "crack_hybrid c e sched passwords st = hybrid_spec c e sched passwords st \<and>
         (office_error e = None \<and> (\<exists>p\<in>set (take 100 passwords). is_match c e p) \<longrightarrow>
          crack_hybrid c e sched passwords st =
            (Inr (fst (crack_single c e (take 100 passwords) st)),
             snd (crack_single c e (take 100 passwords) st)))"
proof -
  obtain r st1 where cs: "crack_single c e (take 100 passwords) st = (r, st1)"
    by (cases "crack_single c e (take 100 passwords) st")
  have t: "truthy r \<longleftrightarrow> r \<noteq> None"
  proof (cases r)
    case None
    then show ?thesis by simp
  next
    case (Some p)
    with cs crack_single_result [of c e "take 100 passwords" st p st1]
    have "p \<in> set (take 100 passwords)" by simp
    then have "p \<in> set passwords" by (rule in_set_takeD)
    with assms have "p \<noteq> []" by auto
    with Some show ?thesis by simp
  qed
  have first: "crack_hybrid c e sched passwords st = hybrid_spec c e sched passwords st"
    using cs t
    by (cases r) (simp_all add: crack_hybrid_def hybrid_spec_def py_slice_prefix py_slice_suffix)
  have second: "crack_hybrid c e sched passwords st = (Inr r, st1)"
    if "office_error e = None" and "\<exists>p\<in>set (take 100 passwords). is_match c e p"
  proof -
    from crack_single_match [OF that, of st] cs obtain p where "r = Some p" by auto
    with t cs show ?thesis
      by (simp add: crack_hybrid_def py_slice_prefix)
  qed
  show ?thesis using first second cs by simp
qed

theorem crack_hybrid_composition_witness:
  "[] \<notin> set [''aaa'', ''bbb'', ''secret'', ''ccc''] \<and>
   office_error example_environment = None \<and>
   (\<exists>p\<in>set (take 100 [''aaa'', ''bbb'', ''secret'', ''ccc'']). is_match example_cracker example_environment p) \<and>
   crack_hybrid example_cracker example_environment [] [''aaa'', ''bbb'', ''secret'', ''ccc''] new_stats =
     (Inr (Some ''secret''), new_stats\<lparr>attempts := 2\<rparr>)"
proof -
  have h: "[] \<notin> set [''aaa'', ''bbb'', ''secret'', ''ccc'']" by simp
  have m: "\<exists>p\<in>set (take 100 [''aaa'', ''bbb'', ''secret'', ''ccc'']).
             is_match example_cracker example_environment p"
    by (simp add: is_match_iff example_environment_fields example_cracker_fields)
  have s: "crack_single example_cracker example_environment
             (take 100 [''aaa'', ''bbb'', ''secret'', ''ccc'']) new_stats =
           (Some ''secret'', new_stats\<lparr>attempts := 2\<rparr>)"
    by (simp add: crack_single_def worker_def new_shared_def new_stats_def
        try_decrypt_def encodings_def example_environment_fields example_cracker_fields)
  have o: "office_error example_environment = None"
    by (simp add: example_environment_fields)
  from crack_hybrid_composition [OF h, of example_cracker example_environment "[]" new_stats] o m
  have "crack_hybrid example_cracker example_environment [] [''aaa'', ''bbb'', ''secret'', ''ccc''] new_stats =
          (Inr (fst (crack_single example_cracker example_environment
                       (take 100 [''aaa'', ''bbb'', ''secret'', ''ccc'']) new_stats)),
           snd (crack_single example_cracker example_environment
                  (take 100 [''aaa'', ''bbb'', ''secret'', ''ccc'']) new_stats))"
    by blast
  then have "crack_hybrid example_cracker example_environment [] [''aaa'', ''bbb'', ''secret'', ''ccc''] new_stats =
          (Inr (Some ''secret''), new_stats\<lparr>attempts := 2\<rparr>)"
    by (simp only: s fst_conv snd_conv)
  with h o m show ?thesis by blast
qed

section \<open>Errors\<close>

lemma worker_loop_raised:
  "decrypt_call e p = Raised msg \<Longrightarrow> \<not> found sh \<Longrightarrow>
   worker_loop c e (p # rest) sh st =
     worker_loop c e rest sh
       (st\<lparr>errors := errors st @ map (\<lambda>enc. ''Error with '' @ enc @ '': '' @ msg) encodings,
           attempts := attempts st + 1\<rparr>)"
  by (simp add: try_decrypt_probe is_match_iff probe_errors_eq)

text \<open>
  C9, as amended. A missing document, a missing wordlist, a document of size zero or
  a wordlist of size zero makes the constructor raise, so \<open>crack\<close> is never called and
  no triple exists. A wordlist file that is not empty but holds no candidate passes
  the constructor; then \<open>crack\<close> catches its own ValueError and returns the triple
  with result None and the text in \<open>stats.errors\<close>.
\<close>

theorem setup_errors_raised:
  "(\<not> document_exists e \<or> \<not> wordlist_exists e \<or> document_size e = 0 \<or> wordlist_size e = 0 \<longrightarrow>
      (\<exists>err. init f w m t cs tmo v e = Inl err \<and>
             construct_and_crack f w m t cs tmo v e sched = Inl err)) \<and>
   (init f w m t cs tmo v e = Inr c \<and> load_passwords c e = Inr [] \<longrightarrow>
      construct_and_crack f w m t cs tmo v e sched =
        Inr (None, t_end e - t_start e,
             new_stats\<lparr>start_time := t_start e, errors := [''No valid passwords in wordlist'']\<rparr>))"
  by (auto simp: init_def validate_inputs_def construct_and_crack_def crack_def crack_failed_def
      Let_def new_stats_def split: if_splits)

theorem setup_errors_raised_witness:
  "\<not> document_exists missing_environment \<and>
   construct_and_crack ''doc.docx'' ''words.txt'' SINGLE 4 1000 3600 True missing_environment [] =
     Inl (FileNotFoundError ''Document not found: doc.docx'') \<and>
   init ''doc.docx'' ''words.txt'' SINGLE 4 1000 3600 True blank_environment =
     Inr \<lparr>file_path = ''doc.docx'', wordlist_path = ''words.txt'', mode = SINGLE, threads = 4,
          chunk_size = 1000, timeout = 3600, verify_hash = True\<rparr> \<and>
   construct_and_crack ''doc.docx'' ''words.txt'' SINGLE 4 1000 3600 True blank_environment [] =
     Inr (None, 2, new_stats\<lparr>start_time := 1, errors := [''No valid passwords in wordlist'']\<rparr>)"
proof -
  let ?c = "\<lparr>file_path = ''doc.docx'', wordlist_path = ''words.txt'', mode = SINGLE, threads = 4,
          chunk_size = 1000, timeout = 3600, verify_hash = True\<rparr>"
  have h1: "\<not> document_exists missing_environment"
    by (simp add: missing_environment_def)
  have i: "init ''doc.docx'' ''words.txt'' SINGLE 4 1000 3600 True blank_environment = Inr ?c"
    by (simp add: init_def validate_inputs_def blank_environment_def example_environment_def
        posix_path_text_def)
  have l: "load_passwords ?c blank_environment = Inr []"
    by (simp add: load_passwords_def blank_environment_def example_environment_def strip_def is_space_def)
  have t: "t_end blank_environment = 3" "t_start blank_environment = 1"
    by (simp_all add: blank_environment_def example_environment_def)
  from setup_errors_raised [where e = missing_environment and f = "''doc.docx''" and w = "''words.txt''"
      and m = SINGLE and t = 4 and cs = 1000 and tmo = 3600 and v = True and sched = "[]"] h1
  obtain err where e: "init ''doc.docx'' ''words.txt'' SINGLE 4 1000 3600 True missing_environment = Inl err"
     and c: "construct_and_crack ''doc.docx'' ''words.txt'' SINGLE 4 1000 3600 True missing_environment [] = Inl err"
    by blast
  from e have "err = FileNotFoundError ''Document not found: doc.docx''"
    by (simp add: init_def validate_inputs_def missing_environment_def example_environment_def
        posix_path_text_def)
  moreover from setup_errors_raised [where e = blank_environment and f = "''doc.docx''"
      and w = "''words.txt''" and m = SINGLE and t = 4 and cs = 1000 and tmo = 3600 and v = True
      and sched = "[]" and c = ?c] i l
  have "construct_and_crack ''doc.docx'' ''words.txt'' SINGLE 4 1000 3600 True blank_environment [] =
     Inr (None, t_end blank_environment - t_start blank_environment,
          new_stats\<lparr>start_time := t_start blank_environment, errors := [''No valid passwords in wordlist'']\<rparr>)"
    by blast
  ultimately show ?thesis using h1 c i by (simp add: t)
qed

text \<open>
  C9 as stated fails: a wordlist file of one line feed exists and has size 1, it
  yields the empty candidate list, and the caller gets a triple, not an exception.
\<close>

theorem blank_wordlist_counterexample:
  "wordlist_exists blank_environment \<and> wordlist_size blank_environment = 1 \<and>
   construct_and_crack ''doc.docx'' ''words.txt'' SINGLE 4 1000 3600 True blank_environment [] =
     Inr (None, 2,
          \<lparr>attempts = 0, start_time = 1, end_time = 0, found_password = [], success = False,
           errors = [''No valid passwords in wordlist'']\<rparr>)"
  by (simp add: construct_and_crack_def init_def validate_inputs_def crack_def crack_failed_def
      load_passwords_def Let_def new_stats_def strip_def is_space_def
      blank_environment_def example_environment_def posix_path_text_def)

section \<open>Runs without a match\<close>

lemma worker_step_quiet:
  assumes "quiet c e P E" and "\<not> found sh" and "unmatched w" and "set (pending w) \<subseteq> P"
    and "set (errors st) \<subseteq> E" and "worker_step c e w sh st = (w', sh', st')"
  shows "sh' = sh \<and> unmatched w' \<and> set (pending w') \<subseteq> P \<and>
         attempts st' + int (todo w') = attempts st + int (todo w) \<and> set (errors st') \<subseteq> E"
proof (cases w)
  case (Queued ps)
  with assms show ?thesis by (auto simp: quiet_def)
next
  case (AtLoop ps)
  with assms show ?thesis by (cases ps) (auto simp: quiet_def)
next
  case (Probing p rest encs)
  with assms(4) have pP: "p \<in> P" by simp
  with assms(1) have nm: "\<not> is_match c e p" and pe: "set (probe_errors c e p) \<subseteq> E"
    by (auto simp: quiet_def)
  show ?thesis
  proof (cases encs)
    case Nil
    with Probing assms show ?thesis by auto
  next
    case (Cons enc encs')
    with Probing assms(3) have enc: "enc \<in> set encodings" and sub: "set encs' \<subseteq> set encodings"
      by auto
    show ?thesis
    proof (cases "decrypt_call e p")
      case InvalidKeyError
      with Probing Cons assms sub show ?thesis by auto
    next
      case (Raised msg)
      with pe enc have "''Error with '' @ enc @ '': '' @ msg \<in> E"
        by (auto simp: probe_errors_eq)
      with Raised Probing Cons assms sub show ?thesis by auto
    next
      case (Decrypted n)
      with nm have "\<not> (verify_hash c \<and> 0 < n)" by (simp add: is_match_iff)
      with Decrypted Probing Cons assms sub show ?thesis by auto
    qed
  qed
next
  case (Matched p)
  with assms show ?thesis by simp
next
  case (Missed rest)
  with assms show ?thesis by auto
next
  case Finished
  with assms show ?thesis by auto
qed

lemma sum_list_map_update:
  "i < length ws \<Longrightarrow>
   int (sum_list (map f (ws[i := w]))) = int (sum_list (map f ws)) - int (f (ws ! i)) + int (f w)"
proof (induction ws arbitrary: i)
  case Nil
  then show ?case by simp
next
  case (Cons a ws)
  then show ?case by (cases i) simp_all
qed

lemma perform_quiet:
  assumes q: "quiet c e P E" and inv: "no_match_inv P E N s" and a: "a \<noteq> Timeout"
  shows "no_match_inv P E N (perform c e a s)"
proof (cases a)
  case (Step i)
  show ?thesis
  proof (cases "may_run (threads c) (tasks s) i")
    case False
    with Step inv show ?thesis by simp
  next
    case True
    then have i: "i < length (tasks s)" by (simp add: may_run_def)
    obtain w' sh' st' where ws: "worker_step c e (tasks s ! i) (shared s) (stats s) = (w', sh', st')"
      by (cases "worker_step c e (tasks s ! i) (shared s) (stats s)")
    from inv i have "unmatched (tasks s ! i)" and "set (pending (tasks s ! i)) \<subseteq> P"
      and "\<not> found (shared s)" and "set (errors (stats s)) \<subseteq> E"
      by (auto simp: no_match_inv_def new_shared_def)
    from worker_step_quiet [OF q this(3) this(1) this(2) this(4) ws]
    have r: "sh' = shared s" "unmatched w'" "set (pending w') \<subseteq> P"
      "attempts st' + int (todo w') = attempts (stats s) + int (todo (tasks s ! i))"
      "set (errors st') \<subseteq> E"
      by simp_all
    have p: "perform c e a s = s\<lparr>tasks := (tasks s)[i := w'], shared := sh', stats := st'\<rparr>"
      using Step True ws by simp
    have t: "\<forall>w\<in>set ((tasks s)[i := w']). unmatched w \<and> set (pending w) \<subseteq> P"
    proof
      fix w assume "w \<in> set ((tasks s)[i := w'])"
      then have "w = w' \<or> w \<in> set (tasks s)"
        using set_update_subset_insert [of "tasks s" i w'] by auto
      with r inv show "unmatched w \<and> set (pending w) \<subseteq> P"
        by (auto simp: no_match_inv_def)
    qed
    have "attempts st' + int (sum_list (map todo ((tasks s)[i := w']))) = N"
      using sum_list_map_update [OF i, of todo w'] r(4) inv by (simp add: no_match_inv_def)
    with p t r inv show ?thesis by (simp add: no_match_inv_def)
  qed
next
  case Timeout
  with a show ?thesis by simp
qed

lemma run_schedule_quiet:
  "quiet c e P E \<Longrightarrow> no_match_inv P E N s \<Longrightarrow> Timeout \<notin> set sched \<Longrightarrow>
   no_match_inv P E N (run_schedule c e sched s)"
proof (induction sched arbitrary: s)
  case Nil
  then show ?case by (simp add: run_schedule_def)
next
  case (Cons a sched)
  from Cons.prems have "no_match_inv P E N (perform c e a s)"
    by (intro perform_quiet) auto
  with Cons show ?case by (simp add: run_schedule_def)
qed

lemma worker_loop_quiet:
  assumes "quiet c e P E" and "\<not> found sh" and "set ps \<subseteq> P" and "set (errors st) \<subseteq> E"
    and "worker_loop c e ps sh st = (sh', st')"
  shows "sh' = sh \<and> attempts st' = attempts st + int (length ps) \<and> set (errors st') \<subseteq> E"
proof -
  have nm: "\<forall>p\<in>set ps. \<not> is_match c e p"
    using assms(1,3) by (auto simp: quiet_def)
  have pe: "set (concat (map (probe_errors c e) ps)) \<subseteq> E"
    using assms(1,3) by (auto simp: quiet_def)
  from worker_loop_no_match [OF assms(2) nm, of st] assms(5)
  have sh: "sh' = sh"
    and st: "st' = st\<lparr>errors := errors st @ concat (map (probe_errors c e) ps),
                       attempts := attempts st + int (length ps)\<rparr>"
    by simp_all
  have "attempts st' = attempts st + int (length ps)" by (simp add: st)
  moreover have "errors st' = errors st @ concat (map (probe_errors c e) ps)" by (simp add: st)
  then have "set (errors st') \<subseteq> E" using pe assms(4) by simp
  ultimately show ?thesis using sh by simp
qed

lemma finish_worker_quiet:
  assumes "quiet c e P E" and "\<not> found sh" and "unmatched w" and "set (pending w) \<subseteq> P"
    and "set (errors st) \<subseteq> E" and "finish_worker c e w (sh, st) = (sh', st')"
  shows "sh' = sh \<and> attempts st' = attempts st + int (todo w) \<and> set (errors st') \<subseteq> E"
proof (cases w)
  case (Queued ps)
  have "office_error e = None" using assms(1) by (simp add: quiet_def)
  with Queued assms(6) have "worker_loop c e ps sh st = (sh', st')"
    by (simp add: worker_def)
  from worker_loop_quiet [OF assms(1,2) _ assms(5) this] Queued assms(4)
  show ?thesis by simp
next
  case (AtLoop ps)
  with assms(6) have "worker_loop c e ps sh st = (sh', st')" by simp
  from worker_loop_quiet [OF assms(1,2) _ assms(5) this] AtLoop assms(4)
  show ?thesis by simp
next
  case (Probing p rest encs)
  with assms(4) have pP: "p \<in> P" and rest: "set rest \<subseteq> P" by simp_all
  from pP assms(1) have m: "\<not> is_match c e p" and e1: "set (probe_errors c e p) \<subseteq> E"
    by (auto simp: quiet_def)
  from Probing assms(3) have sub: "set encs \<subseteq> set encodings" by simp
  obtain ok errs where t: "try_encodings (verify_hash c) (decrypt_call e) p encs (errors st) = (ok, errs)"
    by (cases "try_encodings (verify_hash c) (decrypt_call e) p encs (errors st)")
  have ok: "\<not> ok"
  proof (cases "decrypt_call e p")
    case InvalidKeyError
    with t show ?thesis by (simp add: try_encodings_cases)
  next
    case (Raised msg)
    with t show ?thesis by (simp add: try_encodings_cases)
  next
    case (Decrypted n)
    with m have "\<not> (verify_hash c \<and> 0 < n)" by (simp add: is_match_iff)
    with t Decrypted show ?thesis by (auto simp: try_encodings_cases)
  qed
  have errs: "set errs \<subseteq> E"
  proof (cases "decrypt_call e p")
    case InvalidKeyError
    with t assms(5) show ?thesis by (simp add: try_encodings_cases)
  next
    case (Raised msg)
    with t have "errs = errors st @ map (\<lambda>enc. ''Error with '' @ enc @ '': '' @ msg) encs"
      by (simp add: try_encodings_cases)
    moreover have "set (map (\<lambda>enc. ''Error with '' @ enc @ '': '' @ msg) encs)
        \<subseteq> set (probe_errors c e p)"
      using sub Raised by (auto simp: probe_errors_eq)
    ultimately show ?thesis using e1 assms(5) by auto
  next
    case (Decrypted n)
    with t assms(5) show ?thesis by (auto simp: try_encodings_cases)
  qed
  let ?st1 = "st\<lparr>errors := errs, attempts := attempts st + 1\<rparr>"
  from Probing assms(6) t ok
  have w: "worker_loop c e rest sh ?st1 = (sh', st')"
    by simp
  have "set (errors ?st1) \<subseteq> E" using errs by simp
  from worker_loop_quiet [OF assms(1,2) rest this w] Probing
  show ?thesis by simp
next
  case (Matched p)
  with assms(3) show ?thesis by simp
next
  case (Missed rest)
  let ?st1 = "st\<lparr>attempts := attempts st + 1\<rparr>"
  from Missed assms(6) have w: "worker_loop c e rest sh ?st1 = (sh', st')" by simp
  have "set (errors ?st1) \<subseteq> E" using assms(5) by simp
  moreover have "set rest \<subseteq> P" using Missed assms(4) by simp
  ultimately show ?thesis
    using worker_loop_quiet [OF assms(1,2) _ _ w] Missed by simp
next
  case Finished
  with assms show ?thesis by simp
qed

lemma fold_finish_quiet:
  "quiet c e P E \<Longrightarrow> \<not> found sh \<Longrightarrow> \<forall>w\<in>set ws. unmatched w \<and> set (pending w) \<subseteq> P \<Longrightarrow>
   set (errors st) \<subseteq> E \<Longrightarrow>
   fold (finish_worker c e) ws (sh, st) = (sh', st') \<Longrightarrow>
   sh' = sh \<and> attempts st' = attempts st + int (sum_list (map todo ws)) \<and> set (errors st') \<subseteq> E"
proof (induction ws arbitrary: st)
  case Nil
  then show ?case by simp
next
  case (Cons w ws)
  obtain sh1 st1 where f: "finish_worker c e w (sh, st) = (sh1, st1)"
    by (cases "finish_worker c e w (sh, st)")
  from Cons.prems have "unmatched w" "set (pending w) \<subseteq> P" by simp_all
  from finish_worker_quiet [OF Cons.prems(1,2) this Cons.prems(4) f]
  have r: "sh1 = sh" "attempts st1 = attempts st + int (todo w)" "set (errors st1) \<subseteq> E"
    by simp_all
  from Cons.prems(5) f r(1)
  have "fold (finish_worker c e) ws (sh, st1) = (sh', st')" by simp
  moreover from Cons.prems(3) have "\<forall>w\<in>set ws. unmatched w \<and> set (pending w) \<subseteq> P"
    by simp
  ultimately have "sh' = sh \<and> attempts st' = attempts st1 + int (sum_list (map todo ws)) \<and>
      set (errors st') \<subseteq> E"
    using Cons.IH [of st1] Cons.prems(1,2) r(3) by blast
  with r(2) show ?case by simp
qed

lemma drain_quiet:
  assumes "quiet c e P E" and "no_match_inv P E N s" and "drain c e s = (sh, st)"
  shows "sh = new_shared \<and> attempts st = N \<and> set (errors st) \<subseteq> E"
proof -
  from assms(2) have a: "\<not> found (shared s)"
    and b: "\<forall>w\<in>set (tasks s). unmatched w \<and> set (pending w) \<subseteq> P"
    and c: "set (errors (stats s)) \<subseteq> E"
    by (auto simp: no_match_inv_def new_shared_def)
  from assms(3) have f: "fold (finish_worker c e) (tasks s) (shared s, stats s) = (sh, st)"
    by (simp add: drain_def)
  from fold_finish_quiet [OF assms(1) a b c f] assms(2)
  show ?thesis by (simp add: no_match_inv_def)
qed

lemma chunks_concat:
  "0 < cs \<Longrightarrow> \<exists>cks. chunks ps cs = Inr cks \<and> concat cks = ps"
  using concat_range_up [of 0 cs ps] by (simp add: chunks_def py_range_def)

lemma quiet_subset: "quiet c e P E \<Longrightarrow> P' \<subseteq> P \<Longrightarrow> quiet c e P' E"
  by (auto simp: quiet_def)

lemma initial_pool_quiet:
  assumes "set (errors st) \<subseteq> E"
  shows "no_match_inv (set (concat cks)) E (attempts st + int (length (concat cks))) (initial_pool cks st)"
proof -
  have "sum_list (map todo (map Queued cks)) = length (concat cks)"
    by (simp add: length_concat comp_def)
  moreover have "\<forall>w\<in>set (map Queued cks). unmatched w \<and> set (pending w) \<subseteq> set (concat cks)"
    by auto
  ultimately show ?thesis
    using assms by (simp add: no_match_inv_def initial_pool_def)
qed

lemma crack_multi_quiet:
  assumes q: "quiet c e (set ps) E" and t: "Timeout \<notin> set sched"
    and cs: "0 < chunk_size c" and th: "0 < threads c" and er: "set (errors st) \<subseteq> E"
  shows "\<exists>st'. crack_multi c e sched ps st = (Inr None, st') \<and>
           attempts st' = attempts st + int (length ps) \<and> set (errors st') \<subseteq> E"
proof -
  from chunks_concat [OF cs, of ps] obtain cks where
    ck: "chunks ps (chunk_size c) = Inr cks" and cat: "concat cks = ps" by blast
  let ?s = "run_schedule c e sched (initial_pool cks st)"
  have "no_match_inv (set ps) E (attempts st + int (length ps)) (initial_pool cks st)"
    using initial_pool_quiet [OF er, of cks] cat by simp
  from run_schedule_quiet [OF q this t]
  have inv: "no_match_inv (set ps) E (attempts st + int (length ps)) ?s" .
  obtain sh st' where d: "drain c e ?s = (sh, st')" by (cases "drain c e ?s")
  from drain_quiet [OF q inv d]
  have "sh = new_shared" "attempts st' = attempts st + int (length ps)" "set (errors st') \<subseteq> E"
    by simp_all
  moreover have "crack_multi c e sched ps st = (Inr (password sh), st')"
    using ck th d by (simp add: crack_multi_def)
  ultimately show ?thesis by (simp add: new_shared_def)
qed

lemma crack_single_quiet:
  assumes q: "quiet c e (set ps) E" and er: "set (errors st) \<subseteq> E"
  shows "\<exists>st'. crack_single c e ps st = (None, st') \<and>
           attempts st' = attempts st + int (length ps) \<and> set (errors st') \<subseteq> E"
proof -
  have o: "office_error e = None" using q by (simp add: quiet_def)
  obtain sh st' where w: "worker_loop c e ps new_shared st = (sh, st')"
    by (cases "worker_loop c e ps new_shared st")
  have "\<not> found new_shared" by (simp add: new_shared_def)
  from worker_loop_quiet [OF q this _ er w]
  have "sh = new_shared" "attempts st' = attempts st + int (length ps)" "set (errors st') \<subseteq> E"
    by simp_all
  moreover have "crack_single c e ps st = (password sh, st')"
    using o w by (simp add: crack_single_def worker_def)
  ultimately show ?thesis by (simp add: new_shared_def)
qed

lemma length_take_drop_100:
  "int (length (take 100 ps)) + int (length (drop 100 ps)) = int (length ps)"
proof -
  have "length (take 100 ps @ drop 100 ps) = length ps"
    by (simp only: append_take_drop_id)
  then have "length (take 100 ps) + length (drop 100 ps) = length ps"
    by (simp only: length_append)
  then show ?thesis by linarith
qed

lemma run_mode_quiet:
  assumes q: "quiet c e (set ps) E" and t: "Timeout \<notin> set sched"
    and cs: "0 < chunk_size c" and th: "0 < threads c" and er: "set (errors st) \<subseteq> E"
  shows "\<exists>st'. run_mode c e sched ps st = (Inr None, st') \<and>
           attempts st' = attempts st + int (length ps) \<and> set (errors st') \<subseteq> E"
proof (cases "mode c")
  case SINGLE
  from crack_single_quiet [OF q er] obtain st1 where
    s: "crack_single c e ps st = (None, st1)"
    and a1: "attempts st1 = attempts st + int (length ps)"
    and e1: "set (errors st1) \<subseteq> E" by blast
  have "run_mode c e sched ps st = (Inr None, st1)"
    using SINGLE by (simp add: run_mode_def s)
  with a1 e1 show ?thesis by blast
next
  case MULTI
  have "run_mode c e sched ps st = crack_multi c e sched ps st"
    using MULTI by (simp add: run_mode_def)
  with crack_multi_quiet [OF q t cs th er] show ?thesis by simp
next
  case HYBRID
  have "set (take 100 ps) \<subseteq> set ps" by (rule set_take_subset)
  then have q1: "quiet c e (set (take 100 ps)) E" by (rule quiet_subset [OF q])
  have "set (drop 100 ps) \<subseteq> set ps" by (rule set_drop_subset)
  then have q2: "quiet c e (set (drop 100 ps)) E" by (rule quiet_subset [OF q])
  from crack_single_quiet [OF q1 er] obtain st1 where
    s: "crack_single c e (take 100 ps) st = (None, st1)"
    and a1: "attempts st1 = attempts st + int (length (take 100 ps))"
    and e1: "set (errors st1) \<subseteq> E" by blast
  from crack_multi_quiet [OF q2 t cs th e1] obtain st2 where
    m: "crack_multi c e sched (drop 100 ps) st1 = (Inr None, st2)"
    and a2: "attempts st2 = attempts st1 + int (length (drop 100 ps))"
    and e2: "set (errors st2) \<subseteq> E" by blast
  have "crack_hybrid c e sched ps st = crack_multi c e sched (drop 100 ps) st1"
    by (simp add: crack_hybrid_def py_slice_prefix py_slice_suffix s)
  then have r: "run_mode c e sched ps st = (Inr None, st2)"
    using HYBRID m by (simp add: run_mode_def)
  have "attempts st2 = attempts st + int (length ps)"
    using a1 a2 length_take_drop_100 [of ps] by linarith
  with r e2 show ?thesis by blast
qed

text \<open>
  C5. When no candidate matches, no worker fails to open the document, no wait runs
  out, and the chunk size and thread count are positive, every strategy returns
  None under every schedule, \<open>attempts\<close> grows by the number of candidates, and every
  new entry of \<open>stats.errors\<close> is an entry that the probe of one of the candidates
  appends. For \<open>crack\<close> on a wordlist with these candidates: result None, \<open>attempts\<close>
  equal to the number of candidates, and only such entries in \<open>stats.errors\<close>.
\<close>

theorem no_match_exhausts:
  assumes "\<forall>p\<in>set passwords. \<not> is_match c e p" and "office_error e = None"
    and "Timeout \<notin> set sched" and "0 < chunk_size c" and "0 < threads c"
  shows "(\<exists>st'. run_mode c e sched passwords st = (Inr None, st') \<and>
            attempts st' = attempts st + int (length passwords) \<and>
            set (errors st') \<subseteq> set (errors st) \<union> (\<Union>p\<in>set passwords. set (probe_errors c e p))) \<and>
         (load_passwords c e = Inr passwords \<and> passwords \<noteq> [] \<longrightarrow>
          (\<exists>elapsed st'. crack c e sched = Inr (None, elapsed, st') \<and>
             attempts st' = int (length passwords) \<and>
             set (errors st') \<subseteq> (\<Union>p\<in>set passwords. set (probe_errors c e p))))"
proof -
  let ?U = "\<Union>p\<in>set passwords. set (probe_errors c e p)"
  have q: "quiet c e (set passwords) (E \<union> ?U)" for E
    using assms(1,2) by (auto simp: quiet_def)
  have first: "\<exists>st'. run_mode c e sched passwords st = (Inr None, st') \<and>
            attempts st' = attempts st + int (length passwords) \<and>
            set (errors st') \<subseteq> set (errors st) \<union> ?U" for st
    using run_mode_quiet [OF q [of "set (errors st)"] assms(3,4,5), of st] by simp
  have second: "\<exists>elapsed st'. crack c e sched = Inr (None, elapsed, st') \<and>
             attempts st' = int (length passwords) \<and> set (errors st') \<subseteq> ?U"
    if l: "load_passwords c e = Inr passwords" and ne: "passwords \<noteq> []"
  proof -
    let ?st0 = "new_stats\<lparr>start_time := t_start e\<rparr>"
    from first [of ?st0] obtain st1 where
      r: "run_mode c e sched passwords ?st0 = (Inr None, st1)"
      and a: "attempts st1 = attempts ?st0 + int (length passwords)"
      and e: "set (errors st1) \<subseteq> set (errors ?st0) \<union> ?U" by blast
    let ?st2 = "st1\<lparr>end_time := t_end e, success := False, found_password := []\<rparr>"
    have "crack c e sched = Inr (None, end_time ?st2 - start_time ?st2, ?st2)"
      using l ne r by (simp add: crack_def Let_def)
    moreover have "attempts ?st2 = int (length passwords)"
      using a by (simp add: new_stats_def)
    moreover have "set (errors ?st2) \<subseteq> ?U"
      using e by (simp add: new_stats_def)
    ultimately show ?thesis by blast
  qed
  show ?thesis using first second by blast
qed

theorem no_match_exhausts_witness:
  "\<not> is_match parallel_cracker silent_environment ''aaa'' \<and>
   \<not> is_match parallel_cracker silent_environment ''bbb'' \<and>
   \<not> is_match parallel_cracker silent_environment ''secret'' \<and>
   \<not> is_match parallel_cracker silent_environment ''ccc'' \<and>
   office_error silent_environment = None \<and> Timeout \<notin> set [Step 1, Step 0, Step 1] \<and>
   0 < chunk_size parallel_cracker \<and> 0 < threads parallel_cracker \<and>
   load_passwords parallel_cracker silent_environment = Inr [''aaa'', ''bbb'', ''secret'', ''ccc''] \<and>
   (\<exists>elapsed st'. crack parallel_cracker silent_environment [Step 1, Step 0, Step 1] =
        Inr (None, elapsed, st') \<and> attempts st' = 4)"
proof -
  have d: "decrypt_call silent_environment =
      (\<lambda>p. if p = ''bbb'' then Raised ''boom'' else InvalidKeyError)"
    by (simp add: silent_environment_def)
  have h1: "\<forall>p\<in>set [''aaa'', ''bbb'', ''secret'', ''ccc'']. \<not> is_match parallel_cracker silent_environment p"
    by (simp add: is_match_iff d)
  have h2: "office_error silent_environment = None"
    by (simp add: silent_environment_def example_environment_def)
  have h3: "Timeout \<notin> set [Step 1, Step 0, Step 1]" by simp
  have h4: "0 < chunk_size parallel_cracker" by (simp add: parallel_cracker_def example_cracker_def)
  have h5: "0 < threads parallel_cracker" by (simp add: parallel_cracker_def example_cracker_def)
  have l: "load_passwords parallel_cracker silent_environment = Inr [''aaa'', ''bbb'', ''secret'', ''ccc'']"
    by (simp add: load_passwords_def silent_environment_def example_environment_def strip_def
        is_space_def)
  from no_match_exhausts [OF h1 h2 h3 h4 h5] l
  have "\<exists>elapsed st'. crack parallel_cracker silent_environment [Step 1, Step 0, Step 1] =
        Inr (None, elapsed, st') \<and> attempts st' = int (length [''aaa'', ''bbb'', ''secret'', ''ccc''])"
    by blast
  then have "\<exists>elapsed st'. crack parallel_cracker silent_environment [Step 1, Step 0, Step 1] =
        Inr (None, elapsed, st') \<and> attempts st' = 4"
    by simp
  moreover from h1 have "\<not> is_match parallel_cracker silent_environment ''aaa'' \<and>
      \<not> is_match parallel_cracker silent_environment ''bbb'' \<and>
      \<not> is_match parallel_cracker silent_environment ''secret'' \<and>
      \<not> is_match parallel_cracker silent_environment ''ccc''"
    by simp
  ultimately show ?thesis using h2 h3 h4 h5 l by blast
qed

section \<open>The found flag\<close>

lemma two_keys_fields:
  "office_error two_keys_environment = None"
  "decrypt_call two_keys_environment =
     (\<lambda>p. if p = ''secret'' \<or> p = ''hunter2'' then Decrypted 5 else InvalidKeyError)"
  by (simp_all add: two_keys_environment_def example_environment_def)

lemma racing_cracker_fields:
  "threads racing_cracker = 2" "verify_hash racing_cracker = True" "chunk_size racing_cracker = 1"
  by (simp_all add: racing_cracker_def example_cracker_def)

lemma race_state_eq:
  "race_state = \<lparr>tasks = [Finished, Matched ''hunter2''],
                  shared = \<lparr>found = True, password = Some ''secret''\<rparr>,
                  stats = new_stats, waiting = 0\<rparr>"
  by (simp add: race_state_def racing_schedule_def run_schedule_def initial_pool_def may_run_def
      new_shared_def encodings_def two_keys_fields racing_cracker_fields)

lemma worker_step_found:
  "found sh \<Longrightarrow> worker_step c e w sh st = (w', sh', st') \<Longrightarrow> found sh'"
proof (cases w)
  case (AtLoop ps)
  assume "found sh" and "worker_step c e w sh st = (w', sh', st')"
  with AtLoop show ?thesis by (cases ps) auto
next
  case (Probing p rest encs)
  assume "found sh" and "worker_step c e w sh st = (w', sh', st')"
  with Probing show ?thesis
    by (cases encs; cases "decrypt_call e p") (auto split: if_splits)
qed (auto split: option.splits)

lemma perform_found: "found (shared s) \<Longrightarrow> found (shared (perform c e a s))"
proof (cases a)
  case (Step i)
  assume f: "found (shared s)"
  obtain w' sh' st' where ws: "worker_step c e (tasks s ! i) (shared s) (stats s) = (w', sh', st')"
    by (cases "worker_step c e (tasks s ! i) (shared s) (stats s)")
  from worker_step_found [OF f ws] have "found sh'" .
  with Step f ws show ?thesis by simp
next
  case Timeout
  assume "found (shared s)"
  with Timeout show ?thesis by (simp split: option.splits)
qed

lemma run_schedule_found:
  "found (shared s) \<Longrightarrow> found (shared (run_schedule c e sched s))"
proof (induction sched arbitrary: s)
  case Nil
  then show ?case by (simp add: run_schedule_def)
next
  case (Cons a sched)
  from Cons.prems have "found (shared (perform c e a s))" by (rule perform_found)
  from Cons.IH [OF this] show ?case by (simp add: run_schedule_def)
qed

lemma finish_worker_found:
  assumes "found sh" shows "found (fst (finish_worker c e w (sh, st)))"
proof (cases w)
  case (Queued ps)
  with assms show ?thesis
    by (cases "office_error e") (simp_all add: worker_def worker_loop_found)
next
  case (Probing p rest encs)
  obtain ok errs where "try_encodings (verify_hash c) (decrypt_call e) p encs (errors st) = (ok, errs)"
    by (cases "try_encodings (verify_hash c) (decrypt_call e) p encs (errors st)")
  with Probing assms show ?thesis by (simp add: worker_loop_found)
qed (use assms in \<open>simp_all add: worker_loop_found\<close>)

lemma fold_finish_found:
  "found (fst x) \<Longrightarrow> found (fst (fold (finish_worker c e) ws x))"
proof (induction ws arbitrary: x)
  case Nil
  then show ?case by simp
next
  case (Cons w ws)
  obtain sh st where x: "x = (sh, st)" by (cases x)
  with Cons.prems have "found (fst (finish_worker c e w x))"
    using finish_worker_found [of sh c e w st] by simp
  from Cons.IH [OF this] show ?case by simp
qed

text \<open>
  C2, as amended. Once \<open>found\<close> is true it stays true under every schedule and
  through the end of the run, so it goes from false to true at most once. The
  locked write is not guarded by a second look at the flag: a worker whose probe
  matched writes \<open>found\<close> and \<open>password\<close> whatever the flag is, and then has finished.
\<close>

theorem found_never_reverts:
  "(found (shared s) \<longrightarrow>
      found (shared (run_schedule c e sched s)) \<and>
      found (fst (drain c e (run_schedule c e sched s)))) \<and>
   (i < length (tasks s) \<and> tasks s ! i = Matched p \<longrightarrow>
      shared (perform c e (Step i) s) = (shared s)\<lparr>found := True, password := Some p\<rparr> \<and>
      tasks (perform c e (Step i) s) ! i = Finished)"
proof -
  have a: "found (shared (run_schedule c e sched s)) \<and>
      found (fst (drain c e (run_schedule c e sched s)))" if "found (shared s)"
  proof -
    from that have f: "found (shared (run_schedule c e sched s))" by (rule run_schedule_found)
    then have "found (fst (drain c e (run_schedule c e sched s)))"
      using fold_finish_found [of "(shared (run_schedule c e sched s), stats (run_schedule c e sched s))"]
      by (simp add: drain_def)
    with f show ?thesis by simp
  qed
  have b: "shared (perform c e (Step i) s) = (shared s)\<lparr>found := True, password := Some p\<rparr> \<and>
      tasks (perform c e (Step i) s) ! i = Finished"
    if "i < length (tasks s)" and "tasks s ! i = Matched p"
    using that by (simp add: may_run_def)
  show ?thesis using a b by blast
qed

theorem found_never_reverts_witness:
  "found (shared race_state) \<and> 1 < length (tasks race_state) \<and>
   tasks race_state ! 1 = Matched ''hunter2'' \<and>
   found (shared (run_schedule racing_cracker two_keys_environment [Step 1, Timeout] race_state)) \<and>
   shared (perform racing_cracker two_keys_environment (Step 1) race_state) =
     \<lparr>found = True, password = Some ''hunter2''\<rparr>"
proof -
  have h1: "found (shared race_state)" by (simp add: race_state_eq)
  have h2: "1 < length (tasks race_state) \<and> tasks race_state ! 1 = Matched ''hunter2''"
    by (simp add: race_state_eq)
  from found_never_reverts [of race_state racing_cracker two_keys_environment "[Step 1, Timeout]"
      1 "''hunter2''"] h1 h2
  have "found (shared (run_schedule racing_cracker two_keys_environment [Step 1, Timeout] race_state))"
    and "shared (perform racing_cracker two_keys_environment (Step 1) race_state) =
      (shared race_state)\<lparr>found := True, password := Some ''hunter2''\<rparr>"
    by blast+
  moreover have "(shared race_state)\<lparr>found := True, password := Some ''hunter2''\<rparr> =
      \<lparr>found = True, password = Some ''hunter2''\<rparr>"
    by (simp add: race_state_eq)
  ultimately show ?thesis using h1 h2 by simp
qed

lemma crack_multi_unfold:
  "chunks ps (chunk_size c) = Inr cks \<Longrightarrow> 0 < threads c \<Longrightarrow>
   crack_multi c e sched ps st =
     (case drain c e (run_schedule c e sched (initial_pool cks st)) of
        (sh, st') \<Rightarrow> (Inr (password sh), st'))"
  by (simp add: crack_multi_def)

lemma racing_chunks:
  "chunks [''secret'', ''hunter2''] (chunk_size racing_cracker) = Inr [[''secret''], [''hunter2'']]"
  by (simp add: chunks_def py_range_def py_slice_def range_up.simps racing_cracker_fields)

text \<open>
  C2 as stated fails: in the race, \<open>found\<close> is true and \<open>password\<close> is secret when
  worker 1 reaches the write; its step replaces \<open>password\<close> by hunter2, and that is
  what \<open>_crack_multi\<close> returns.
\<close>

theorem second_write_counterexample:
  "found (shared race_state) \<and> password (shared race_state) = Some ''secret'' \<and>
   tasks race_state ! 1 = Matched ''hunter2'' \<and>
   password (shared (perform racing_cracker two_keys_environment (Step 1) race_state)) =
     Some ''hunter2'' \<and>
   fst (crack_multi racing_cracker two_keys_environment (racing_schedule @ [Step 1])
          [''secret'', ''hunter2''] new_stats) = Inr (Some ''hunter2'')"
proof -
  have p: "perform racing_cracker two_keys_environment (Step 1) race_state =
      \<lparr>tasks = [Finished, Finished], shared = \<lparr>found = True, password = Some ''hunter2''\<rparr>,
       stats = new_stats, waiting = 0\<rparr>"
    by (simp add: race_state_eq may_run_def)
  have "run_schedule racing_cracker two_keys_environment (racing_schedule @ [Step 1])
          (initial_pool [[''secret''], [''hunter2'']] new_stats) =
        perform racing_cracker two_keys_environment (Step 1) race_state"
    by (simp only: run_schedule_def race_state_def fold_append comp_apply fold_simps)
  then have r: "run_schedule racing_cracker two_keys_environment (racing_schedule @ [Step 1])
          (initial_pool [[''secret''], [''hunter2'']] new_stats) =
      \<lparr>tasks = [Finished, Finished], shared = \<lparr>found = True, password = Some ''hunter2''\<rparr>,
       stats = new_stats, waiting = 0\<rparr>"
    by (simp only: p)
  have m: "crack_multi racing_cracker two_keys_environment (racing_schedule @ [Step 1])
          [''secret'', ''hunter2''] new_stats = (Inr (Some ''hunter2''), new_stats)"
  proof -
    have "0 < threads racing_cracker" by (simp add: racing_cracker_fields)
    from crack_multi_unfold [OF racing_chunks this]
    have "crack_multi racing_cracker two_keys_environment (racing_schedule @ [Step 1])
          [''secret'', ''hunter2''] new_stats =
        (case drain racing_cracker two_keys_environment
           \<lparr>tasks = [Finished, Finished], shared = \<lparr>found = True, password = Some ''hunter2''\<rparr>,
            stats = new_stats, waiting = 0\<rparr> of (sh, st') \<Rightarrow> (Inr (password sh), st'))"
      by (simp only: r)
    then show ?thesis by (simp add: drain_def)
  qed
  have a: "found (shared race_state) \<and> password (shared race_state) = Some ''secret'' \<and>
      tasks race_state ! 1 = Matched ''hunter2''"
    by (simp add: race_state_eq)
  have b: "password (shared (perform racing_cracker two_keys_environment (Step 1) race_state)) =
      Some ''hunter2''"
    by (simp only: p) simp
  have c: "fst (crack_multi racing_cracker two_keys_environment (racing_schedule @ [Step 1])
          [''secret'', ''hunter2''] new_stats) = Inr (Some ''hunter2'')"
    by (simp only: m fst_conv)
  from a b c show ?thesis by blast
qed

section \<open>Waits that run out\<close>

lemma find_Some_in: "List.find P xs = Some x \<Longrightarrow> P x \<and> x \<in> set xs"
  by (induction xs) (auto split: if_splits)

lemma next_unfinished_Some:
  "next_unfinished ws k = Some j \<Longrightarrow> k \<le> j \<and> j < length ws \<and> ws ! j \<noteq> Finished"
  using find_Some_in [of "\<lambda>i. ws ! i \<noteq> Finished" "[k ..< length ws]" j]
  by (simp add: next_unfinished_def)

lemma worker_step_tracks:
  assumes "attempts st1 = attempts st2"
  shows "\<exists>w' sh' st1' st2' new.
           worker_step c e w sh st1 = (w', sh', st1') \<and>
           worker_step c e w sh st2 = (w', sh', st2') \<and>
           attempts st1' = attempts st2' \<and>
           errors st1' = errors st1 @ new \<and> errors st2' = errors st2 @ new"
proof (cases w)
  case (Queued ps)
  with assms show ?thesis by (cases "office_error e") simp_all
next
  case (AtLoop ps)
  with assms show ?thesis by (cases ps) simp_all
next
  case (Probing p rest encs)
  with assms show ?thesis
    by (cases encs; cases "decrypt_call e p") simp_all
next
  case (Matched p)
  with assms show ?thesis by simp
next
  case (Missed rest)
  with assms show ?thesis by simp
next
  case Finished
  with assms show ?thesis by simp
qed

lemma worker_loop_tracks:
  assumes "attempts st1 = attempts st2"
  shows "\<exists>sh' st1' st2' new.
           worker_loop c e ps sh st1 = (sh', st1') \<and>
           worker_loop c e ps sh st2 = (sh', st2') \<and>
           attempts st1' = attempts st2' \<and>
           errors st1' = errors st1 @ new \<and> errors st2' = errors st2 @ new"
  using assms
proof (induction ps arbitrary: st1 st2)
  case Nil
  then show ?case by simp
next
  case (Cons p ps)
  show ?case
  proof (cases "found sh \<or> is_match c e p")
    case True
    with Cons.prems show ?thesis by (auto simp: try_decrypt_probe)
  next
    case False
    let ?pe = "probe_errors c e p"
    let ?s1 = "st1\<lparr>errors := errors st1 @ ?pe, attempts := attempts st1 + 1\<rparr>"
    let ?s2 = "st2\<lparr>errors := errors st2 @ ?pe, attempts := attempts st2 + 1\<rparr>"
    have "attempts ?s1 = attempts ?s2" using Cons.prems by simp
    from Cons.IH [OF this] obtain sh' st1' st2' new where
      l1: "worker_loop c e ps sh ?s1 = (sh', st1')" and
      l2: "worker_loop c e ps sh ?s2 = (sh', st2')" and
      a: "attempts st1' = attempts st2'" and
      e1: "errors st1' = errors ?s1 @ new" and e2: "errors st2' = errors ?s2 @ new"
      by blast
    have "worker_loop c e (p # ps) sh st1 = (sh', st1')"
      using False l1 by (simp add: try_decrypt_probe)
    moreover have "worker_loop c e (p # ps) sh st2 = (sh', st2')"
      using False l2 by (simp add: try_decrypt_probe)
    moreover have "errors st1' = errors st1 @ (?pe @ new)" using e1 by simp
    moreover have "errors st2' = errors st2 @ (?pe @ new)" using e2 by simp
    ultimately show ?thesis using a by blast
  qed
qed

lemma try_encodings_errs:
  "try_encodings v lib p encs errs =
     (fst (try_encodings v lib p encs []), errs @ snd (try_encodings v lib p encs []))"
  by (simp add: try_encodings_cases split: lib_outcome.splits)

lemma finish_worker_tracks:
  assumes "attempts st1 = attempts st2"
  shows "\<exists>sh' st1' st2' new.
           finish_worker c e w (sh, st1) = (sh', st1') \<and>
           finish_worker c e w (sh, st2) = (sh', st2') \<and>
           attempts st1' = attempts st2' \<and>
           errors st1' = errors st1 @ new \<and> errors st2' = errors st2 @ new"
proof (cases w)
  case (Queued ps)
  show ?thesis
  proof (cases "office_error e")
    case None
    with Queued worker_loop_tracks [OF assms, of c e ps sh] show ?thesis
      by (simp add: worker_def)
  next
    case (Some msg)
    with Queued assms show ?thesis by (simp add: worker_def)
  qed
next
  case (AtLoop ps)
  with worker_loop_tracks [OF assms, of c e ps sh] show ?thesis by simp
next
  case (Probing p rest encs)
  let ?ok = "fst (try_encodings (verify_hash c) (decrypt_call e) p encs [])"
  let ?pe = "snd (try_encodings (verify_hash c) (decrypt_call e) p encs [])"
  have t: "try_encodings (verify_hash c) (decrypt_call e) p encs errs = (?ok, errs @ ?pe)" for errs
    by (rule try_encodings_errs)
  show ?thesis
  proof (cases ?ok)
    case True
    with Probing assms show ?thesis by (simp add: t [of "errors st1"] t [of "errors st2"])
  next
    case False
    let ?s1 = "st1\<lparr>errors := errors st1 @ ?pe, attempts := attempts st1 + 1\<rparr>"
    let ?s2 = "st2\<lparr>errors := errors st2 @ ?pe, attempts := attempts st2 + 1\<rparr>"
    have "attempts ?s1 = attempts ?s2" using assms by simp
    from worker_loop_tracks [OF this, of c e rest sh] obtain sh' st1' st2' new where
      l1: "worker_loop c e rest sh ?s1 = (sh', st1')" and
      l2: "worker_loop c e rest sh ?s2 = (sh', st2')" and
      a: "attempts st1' = attempts st2'" and
      e1: "errors st1' = errors ?s1 @ new" and e2: "errors st2' = errors ?s2 @ new"
      by blast
    have "finish_worker c e w (sh, st1) = (sh', st1')"
      using Probing False l1 by (simp add: t [of "errors st1"])
    moreover have "finish_worker c e w (sh, st2) = (sh', st2')"
      using Probing False l2 by (simp add: t [of "errors st2"])
    moreover have "errors st1' = errors st1 @ (?pe @ new)" using e1 by simp
    moreover have "errors st2' = errors st2 @ (?pe @ new)" using e2 by simp
    ultimately show ?thesis using a by blast
  qed
next
  case (Matched p)
  with assms show ?thesis by simp
next
  case (Missed rest)
  let ?s1 = "st1\<lparr>attempts := attempts st1 + 1\<rparr>"
  let ?s2 = "st2\<lparr>attempts := attempts st2 + 1\<rparr>"
  have "attempts ?s1 = attempts ?s2" using assms by simp
  from worker_loop_tracks [OF this, of c e rest sh] Missed show ?thesis by simp
next
  case Finished
  with assms show ?thesis by simp
qed

lemma perform_step_tracks:
  assumes "tracks e n s s'"
  shows "tracks e n (perform c e (Step i) s) (perform c e (Step i) s')"
proof (cases "may_run (threads c) (tasks s) i")
  case False
  from assms have "tasks s' = tasks s" by (simp add: tracks_def)
  with False have "perform c e (Step i) s = s" and "perform c e (Step i) s' = s'"
    by simp_all
  with assms show ?thesis by (simp only:)
next
  case True
  from assms have t: "tasks s' = tasks s" and sh: "shared s' = shared s"
    and a: "attempts (stats s) = attempts (stats s')"
    and cnt: "\<forall>x. count_list (errors (stats s)) x =
            count_list (errors (stats s')) x + (if x = timeout_text e then n else 0)"
    and w: "n \<le> waiting s" "waiting s \<le> length (tasks s)"
    by (auto simp: tracks_def)
  from worker_step_tracks [OF a, of c e "tasks s ! i" "shared s"]
  obtain w' sh' st1' st2' new where
    s1: "worker_step c e (tasks s ! i) (shared s) (stats s) = (w', sh', st1')" and
    s2: "worker_step c e (tasks s ! i) (shared s) (stats s') = (w', sh', st2')" and
    a': "attempts st1' = attempts st2'" and
    e1: "errors st1' = errors (stats s) @ new" and e2: "errors st2' = errors (stats s') @ new"
    by blast
  have p1: "perform c e (Step i) s = s\<lparr>tasks := (tasks s)[i := w'], shared := sh', stats := st1'\<rparr>"
    using True s1 by simp
  have p2: "perform c e (Step i) s' = s'\<lparr>tasks := (tasks s)[i := w'], shared := sh', stats := st2'\<rparr>"
    using True s2 t sh by simp
  have "\<forall>x. count_list (errors st1') x =
            count_list (errors st2') x + (if x = timeout_text e then n else 0)"
    using cnt e1 e2 by simp
  with a' w have "tracks e n
      (s\<lparr>tasks := (tasks s)[i := w'], shared := sh', stats := st1'\<rparr>)
      (s'\<lparr>tasks := (tasks s)[i := w'], shared := sh', stats := st2'\<rparr>)"
    by (simp add: tracks_def)
  then show ?thesis by (simp only: p1 p2)
qed

lemma perform_timeout_tracks:
  assumes "tracks e n s s'"
  shows "\<exists>n'. tracks e n' (perform c e Timeout s) s'"
proof (cases "next_unfinished (tasks s) (waiting s)")
  case None
  with assms have "tracks e n (perform c e Timeout s) s'" by simp
  then show ?thesis ..
next
  case (Some k)
  from next_unfinished_Some [OF Some] have k: "waiting s \<le> k" "k < length (tasks s)" by simp_all
  from assms have cnt: "\<forall>x. count_list (errors (stats s)) x =
            count_list (errors (stats s')) x + (if x = timeout_text e then n else 0)"
    and rest: "tasks s = tasks s'" "shared s = shared s'"
      "attempts (stats s) = attempts (stats s')" "n \<le> waiting s"
    by (simp_all add: tracks_def)
  have p: "perform c e Timeout s =
      s\<lparr>stats := (stats s)\<lparr>errors := errors (stats s) @ [timeout_text e]\<rparr>, waiting := Suc k\<rparr>"
    using Some by simp
  have "\<forall>x. count_list (errors (stats s) @ [timeout_text e]) x =
            count_list (errors (stats s')) x + (if x = timeout_text e then Suc n else 0)"
    using cnt by auto
  with rest k have "tracks e (Suc n)
      (s\<lparr>stats := (stats s)\<lparr>errors := errors (stats s) @ [timeout_text e]\<rparr>, waiting := Suc k\<rparr>) s'"
    by (simp add: tracks_def)
  then have "tracks e (Suc n) (perform c e Timeout s) s'" by (simp only: p)
  then show ?thesis ..
qed

lemma run_schedule_tracks:
  "tracks e n s s' \<Longrightarrow>
   \<exists>n'. tracks e n' (run_schedule c e sched s)
          (run_schedule c e (filter (\<lambda>a. a \<noteq> Timeout) sched) s')"
proof (induction sched arbitrary: n s s')
  case Nil
  then show ?case by (auto simp: run_schedule_def)
next
  case (Cons a sched)
  show ?case
  proof (cases a)
    case (Step i)
    from perform_step_tracks [OF Cons.prems, of c i]
    have "tracks e n (perform c e (Step i) s) (perform c e (Step i) s')" .
    from Cons.IH [OF this] Step show ?thesis by (simp add: run_schedule_def)
  next
    case Timeout
    from perform_timeout_tracks [OF Cons.prems, of c] obtain n' where
      "tracks e n' (perform c e Timeout s) s'" ..
    from Cons.IH [OF this] Timeout show ?thesis by (simp add: run_schedule_def)
  qed
qed

lemma fold_finish_tracks:
  assumes "attempts st1 = attempts st2"
    and "\<forall>x. count_list (errors st1) x = count_list (errors st2) x + d x"
  shows "\<exists>sh' st1' st2'.
           fold (finish_worker c e) ws (sh, st1) = (sh', st1') \<and>
           fold (finish_worker c e) ws (sh, st2) = (sh', st2') \<and>
           attempts st1' = attempts st2' \<and>
           (\<forall>x. count_list (errors st1') x = count_list (errors st2') x + d x)"
  using assms
proof (induction ws arbitrary: sh st1 st2)
  case Nil
  then show ?case by simp
next
  case (Cons w ws)
  from finish_worker_tracks [OF Cons.prems(1), of c e w sh]
  obtain sh' st1' st2' new where
    f1: "finish_worker c e w (sh, st1) = (sh', st1')" and
    f2: "finish_worker c e w (sh, st2) = (sh', st2')" and
    a: "attempts st1' = attempts st2'" and
    e1: "errors st1' = errors st1 @ new" and e2: "errors st2' = errors st2 @ new"
    by blast
  have "\<forall>x. count_list (errors st1') x = count_list (errors st2') x + d x"
    using Cons.prems(2) e1 e2 by simp
  from Cons.IH [OF a this, of sh'] f1 f2 show ?case by simp
qed

lemma initial_pool_tracks: "tracks e 0 (initial_pool cks st) (initial_pool cks st)"
  by (simp add: tracks_def initial_pool_def)

lemma crack_multi_tracks:
  assumes "chunks ps (chunk_size c) = Inr cks" and "0 < threads c"
  shows "\<exists>n r st1 st2.
           crack_multi c e sched ps st = (r, st1) \<and>
           crack_multi c e (filter (\<lambda>a. a \<noteq> Timeout) sched) ps st = (r, st2) \<and>
           attempts st1 = attempts st2 \<and> n \<le> length cks \<and>
           (\<forall>x. count_list (errors st1) x =
                 count_list (errors st2) x + (if x = timeout_text e then n else 0))"
proof -
  let ?s = "run_schedule c e sched (initial_pool cks st)"
  let ?s' = "run_schedule c e (filter (\<lambda>a. a \<noteq> Timeout) sched) (initial_pool cks st)"
  have "tracks e 0 (initial_pool cks st) (initial_pool cks st)" by (rule initial_pool_tracks)
  from run_schedule_tracks [OF this, where c = c and sched = sched]
  obtain n where tr: "tracks e n ?s ?s'" ..
  then have t: "tasks ?s' = tasks ?s" and sh: "shared ?s' = shared ?s"
    and a: "attempts (stats ?s) = attempts (stats ?s')"
    and cnt: "\<forall>x. count_list (errors (stats ?s)) x =
            count_list (errors (stats ?s')) x + (if x = timeout_text e then n else 0)"
    and n: "n \<le> length (tasks ?s)"
    by (auto simp: tracks_def)
  have len: "length (tasks (run_schedule c e sch s0)) = length (tasks s0)" for sch s0
  proof (induction sch arbitrary: s0)
    case Nil
    show ?case by (simp add: run_schedule_def)
  next
    case (Cons b sch)
    have "length (tasks (perform c e b s0)) = length (tasks s0)"
      by (cases b) (auto split: prod.splits option.splits)
    with Cons [of "perform c e b s0"] show ?case by (simp add: run_schedule_def)
  qed
  from n len [of sched "initial_pool cks st"] have n': "n \<le> length cks"
    by (simp add: initial_pool_def)
  from fold_finish_tracks [OF a cnt, of c e "tasks ?s" "shared ?s"]
  obtain sh' st1 st2 where
    d1: "drain c e ?s = (sh', st1)" and
    d2: "fold (finish_worker c e) (tasks ?s) (shared ?s, stats ?s') = (sh', st2)" and
    a': "attempts st1 = attempts st2" and
    c': "\<forall>x. count_list (errors st1) x =
            count_list (errors st2) x + (if x = timeout_text e then n else 0)"
    by (auto simp: drain_def)
  from d2 t sh have d2': "drain c e ?s' = (sh', st2)" by (simp add: drain_def)
  have "crack_multi c e sched ps st = (Inr (password sh'), st1)"
    using assms d1 by (simp add: crack_multi_def)
  moreover have "crack_multi c e (filter (\<lambda>a. a \<noteq> Timeout) sched) ps st = (Inr (password sh'), st2)"
    using assms d2' by (simp add: crack_multi_def)
  ultimately show ?thesis using a' n' c' by blast
qed

lemma crack_multi_raises:
  "chunks ps (chunk_size c) = Inl err \<Longrightarrow>
   crack_multi c e sched ps st = crack_multi c e sched' ps st"
  by (simp add: crack_multi_def)

lemma crack_multi_no_workers:
  "\<not> 0 < threads c \<Longrightarrow> crack_multi c e sched ps st = crack_multi c e sched' ps st"
  by (simp add: crack_multi_def split: sum.splits)

text \<open>
  What the waiting loop of \<open>_crack_multi\<close> does, for every schedule. The waits
  for \<open>n\<close> futures, \<open>timeout / n\<close> each, add up to the timeout. A wait can run out only on a future that has not finished; it appends
  one entry to \<open>stats.errors\<close> and the loop goes to the next future, so there is at most
  one such entry for each chunk. No task is abandoned: the result and \<open>attempts\<close> of
  \<open>_crack_multi\<close> are those of the same schedule with no wait running out, and the
  error entries differ by the timeout entries only.
\<close>

theorem timeouts_abandon_nothing:
  "(0 < n \<longrightarrow> real n * wait_share c n = real_of_int (timeout c)) \<and>
   (next_unfinished (tasks s) (waiting s) = Some k \<longrightarrow>
      waiting s \<le> k \<and> k < length (tasks s) \<and> tasks s ! k \<noteq> Finished \<and>
      perform c e Timeout s =
        s\<lparr>stats := (stats s)\<lparr>errors := errors (stats s) @ [timeout_text e]\<rparr>,
          waiting := Suc k\<rparr>) \<and>
   fst (crack_multi c e sched ps st) =
     fst (crack_multi c e (filter (\<lambda>a. a \<noteq> Timeout) sched) ps st) \<and>
   attempts (snd (crack_multi c e sched ps st)) =
     attempts (snd (crack_multi c e (filter (\<lambda>a. a \<noteq> Timeout) sched) ps st)) \<and>
   (chunks ps (chunk_size c) = Inr cks \<longrightarrow>
      (\<exists>m\<le>length cks. \<forall>x.
          count_list (errors (snd (crack_multi c e sched ps st))) x =
          count_list (errors (snd (crack_multi c e (filter (\<lambda>a. a \<noteq> Timeout) sched) ps st))) x +
          (if x = timeout_text e then m else 0)))"
proof -
  let ?quiet = "filter (\<lambda>a. a \<noteq> Timeout) sched"
  have share: "real n * wait_share c n = real_of_int (timeout c)" if "0 < n"
    using that by (simp add: wait_share_def)
  have wait: "waiting s \<le> k \<and> k < length (tasks s) \<and> tasks s ! k \<noteq> Finished \<and>
      perform c e Timeout s =
        s\<lparr>stats := (stats s)\<lparr>errors := errors (stats s) @ [timeout_text e]\<rparr>,
          waiting := Suc k\<rparr>"
    if "next_unfinished (tasks s) (waiting s) = Some k"
    using that next_unfinished_Some [OF that] by simp
  have same: "fst (crack_multi c e sched ps st) = fst (crack_multi c e ?quiet ps st) \<and>
      attempts (snd (crack_multi c e sched ps st)) = attempts (snd (crack_multi c e ?quiet ps st))"
  proof (cases "chunks ps (chunk_size c)")
    case (Inl err)
    then have "crack_multi c e sched ps st = crack_multi c e ?quiet ps st"
      by (rule crack_multi_raises)
    then show ?thesis by simp
  next
    case (Inr cks')
    show ?thesis
    proof (cases "0 < threads c")
      case True
      from crack_multi_tracks [OF Inr True, of e sched st] show ?thesis by auto
    next
      case False
      then have "crack_multi c e sched ps st = crack_multi c e ?quiet ps st"
        by (rule crack_multi_no_workers)
      then show ?thesis by simp
    qed
  qed
  have entries: "\<exists>m\<le>length cks. \<forall>x.
          count_list (errors (snd (crack_multi c e sched ps st))) x =
          count_list (errors (snd (crack_multi c e ?quiet ps st))) x +
          (if x = timeout_text e then m else 0)"
    if ck: "chunks ps (chunk_size c) = Inr cks"
  proof (cases "0 < threads c")
    case True
    from crack_multi_tracks [OF ck True, of e sched st] show ?thesis by auto
  next
    case False
    then have "crack_multi c e sched ps st = crack_multi c e ?quiet ps st"
      by (rule crack_multi_no_workers)
    then have "\<forall>x. count_list (errors (snd (crack_multi c e sched ps st))) x =
          count_list (errors (snd (crack_multi c e ?quiet ps st))) x +
          (if x = timeout_text e then 0 else 0)"
      by simp
    then show ?thesis by (intro exI [of _ 0]) simp
  qed
  show ?thesis using share wait same entries by blast
qed

lemma example_chunks:
  "chunk_size c = 2 \<Longrightarrow>
   chunks [''aaa'', ''bbb'', ''secret'', ''ccc''] (chunk_size c) =
     Inr [[''aaa'', ''bbb''], [''secret'', ''ccc'']]"
  by (simp add: chunks_def py_range_def py_slice_def range_up.simps)

lemma parallel_cracker_fields:
  "threads parallel_cracker = 2" "verify_hash parallel_cracker = True"
  "chunk_size parallel_cracker = 2" "mode parallel_cracker = MULTI"
  "timeout parallel_cracker = 3600"
  by (simp_all add: parallel_cracker_def example_cracker_def)

lemma hasty_cracker_fields:
  "threads hasty_cracker = 2" "verify_hash hasty_cracker = True"
  "chunk_size hasty_cracker = 2" "mode hasty_cracker = MULTI" "timeout hasty_cracker = 0"
  by (simp_all add: hasty_cracker_def parallel_cracker_def example_cracker_def)

lemma example_two_timeouts:
  "run_schedule c example_environment [Timeout, Timeout]
     (initial_pool [[''aaa'', ''bbb''], [''secret'', ''ccc'']] st) =
   \<lparr>tasks = [Queued [''aaa'', ''bbb''], Queued [''secret'', ''ccc'']], shared = new_shared,
    stats = st\<lparr>errors := errors st @ [[], []]\<rparr>, waiting = 2\<rparr>"
  by (simp add: run_schedule_def initial_pool_def next_unfinished_def example_environment_fields)

lemma example_drain:
  "verify_hash c \<Longrightarrow>
   drain c example_environment
     \<lparr>tasks = [Queued [''aaa'', ''bbb''], Queued [''secret'', ''ccc'']], shared = new_shared,
      stats = st, waiting = k\<rparr> =
   (\<lparr>found = True, password = Some ''secret''\<rparr>, st\<lparr>attempts := attempts st + 2\<rparr>)"
  by (simp add: drain_def worker_def new_shared_def try_decrypt_def encodings_def
      example_environment_fields)

theorem timeouts_abandon_nothing_witness:
  "(0::nat) < 2 \<and> real 2 * wait_share parallel_cracker 2 = 3600 \<and>
   next_unfinished (tasks (initial_pool [[''aaa'', ''bbb''], [''secret'', ''ccc'']] new_stats))
     (waiting (initial_pool [[''aaa'', ''bbb''], [''secret'', ''ccc'']] new_stats)) = Some 0 \<and>
   perform parallel_cracker example_environment Timeout
     (initial_pool [[''aaa'', ''bbb''], [''secret'', ''ccc'']] new_stats) =
     \<lparr>tasks = [Queued [''aaa'', ''bbb''], Queued [''secret'', ''ccc'']], shared = new_shared,
      stats = new_stats\<lparr>errors := [[]]\<rparr>, waiting = 1\<rparr> \<and>
   chunks [''aaa'', ''bbb'', ''secret'', ''ccc''] (chunk_size parallel_cracker) =
     Inr [[''aaa'', ''bbb''], [''secret'', ''ccc'']] \<and>
   fst (crack_multi parallel_cracker example_environment [Timeout, Timeout]
          [''aaa'', ''bbb'', ''secret'', ''ccc''] new_stats) = Inr (Some ''secret'') \<and>
   attempts (snd (crack_multi parallel_cracker example_environment [Timeout, Timeout]
          [''aaa'', ''bbb'', ''secret'', ''ccc''] new_stats)) = 2 \<and>
   (\<exists>m\<le>2. \<forall>x.
      count_list (errors (snd (crack_multi parallel_cracker example_environment [Timeout, Timeout]
          [''aaa'', ''bbb'', ''secret'', ''ccc''] new_stats))) x = (if x = [] then m else 0))"
proof -
  let ?ps = "[''aaa'', ''bbb'', ''secret'', ''ccc'']"
  let ?cks = "[[''aaa'', ''bbb''], [''secret'', ''ccc'']]"
  let ?s = "initial_pool ?cks new_stats"
  have h1: "(0::nat) < 2" by simp
  have h2: "next_unfinished (tasks ?s) (waiting ?s) = Some 0"
    by (simp add: initial_pool_def next_unfinished_def)
  have ck: "chunks ?ps (chunk_size parallel_cracker) = Inr ?cks"
    by (rule example_chunks) (simp add: parallel_cracker_fields)
  have n: "crack_multi parallel_cracker example_environment [] ?ps new_stats =
      (Inr (Some ''secret''), new_stats\<lparr>attempts := 2\<rparr>)"
  proof -
    have "0 < threads parallel_cracker" by (simp add: parallel_cracker_fields)
    from crack_multi_unfold [OF ck this, of example_environment "[]" new_stats]
    show ?thesis
      by (simp add: run_schedule_def initial_pool_def example_drain parallel_cracker_fields)
        (simp add: new_stats_def)
  qed
  note t = timeouts_abandon_nothing [where n = 2 and c = parallel_cracker and s = ?s and k = 0
      and e = example_environment and sched = "[Timeout, Timeout]" and ps = ?ps
      and st = new_stats and cks = ?cks]
  from t h1 have a: "real 2 * wait_share parallel_cracker 2 = real_of_int (timeout parallel_cracker)"
    by blast
  from t h2 have b: "perform parallel_cracker example_environment Timeout ?s =
      ?s\<lparr>stats := (stats ?s)\<lparr>errors := errors (stats ?s) @ [timeout_text example_environment]\<rparr>,
        waiting := Suc 0\<rparr>"
    by blast
  from t have c: "fst (crack_multi parallel_cracker example_environment [Timeout, Timeout] ?ps new_stats) =
      fst (crack_multi parallel_cracker example_environment
             (filter (\<lambda>a. a \<noteq> Timeout) [Timeout, Timeout]) ?ps new_stats)"
    and d: "attempts (snd (crack_multi parallel_cracker example_environment [Timeout, Timeout] ?ps new_stats)) =
      attempts (snd (crack_multi parallel_cracker example_environment
             (filter (\<lambda>a. a \<noteq> Timeout) [Timeout, Timeout]) ?ps new_stats))"
    by blast+
  from t ck obtain m where m: "m \<le> length ?cks" and
    cnt: "\<forall>x. count_list (errors (snd (crack_multi parallel_cracker example_environment
             [Timeout, Timeout] ?ps new_stats))) x =
          count_list (errors (snd (crack_multi parallel_cracker example_environment
             (filter (\<lambda>a. a \<noteq> Timeout) [Timeout, Timeout]) ?ps new_stats))) x +
          (if x = timeout_text example_environment then m else 0)"
    by blast
  have f: "filter (\<lambda>a. a \<noteq> Timeout) [Timeout, Timeout] = []" by simp
  have a': "real 2 * wait_share parallel_cracker 2 = 3600"
    using a by (simp add: parallel_cracker_fields)
  have b': "perform parallel_cracker example_environment Timeout ?s =
     \<lparr>tasks = [Queued [''aaa'', ''bbb''], Queued [''secret'', ''ccc'']], shared = new_shared,
      stats = new_stats\<lparr>errors := [[]]\<rparr>, waiting = 1\<rparr>"
    by (simp only: b) (simp add: initial_pool_def example_environment_fields new_stats_def)
  have c': "fst (crack_multi parallel_cracker example_environment [Timeout, Timeout] ?ps new_stats) =
      Inr (Some ''secret'')"
    by (simp only: c f n fst_conv)
  have d': "attempts (snd (crack_multi parallel_cracker example_environment [Timeout, Timeout] ?ps new_stats)) = 2"
    by (simp only: d f n snd_conv) simp
  have e': "\<forall>x. count_list (errors (snd (crack_multi parallel_cracker example_environment
             [Timeout, Timeout] ?ps new_stats))) x = (if x = [] then m else 0)"
    using cnt by (simp only: f n snd_conv) (simp add: new_stats_def example_environment_fields)
  from m have "m \<le> 2" by simp
  with e' have "\<exists>m\<le>2. \<forall>x. count_list (errors (snd (crack_multi parallel_cracker example_environment
             [Timeout, Timeout] ?ps new_stats))) x = (if x = [] then m else 0)"
    by blast
  with h1 h2 a' b' c' d' ck show ?thesis by blast
qed

text \<open>
  C7. Started with a timeout of 0, both waits run out before a worker has taken a
  step, and nothing has been found then. The tasks run all the same before
  \<open>_crack_multi\<close> returns: \<open>crack\<close> returns secret, with both candidates of the first chunk
  counted and one entry in \<open>stats.errors\<close> for each wait.
\<close>

theorem crack_after_timeouts_example:
  "crack hasty_cracker example_environment [Timeout, Timeout] =
     Inr (Some ''secret'', 2,
          \<lparr>attempts = 2, start_time = 1, end_time = 3, found_password = ''secret'',
           success = True, errors = [[], []]\<rparr>)"
proof -
  have l: "load_passwords hasty_cracker example_environment =
      Inr [''aaa'', ''bbb'', ''secret'', ''ccc'']"
    by (simp add: load_passwords_def example_environment_def strip_def is_space_def)
  have ck: "chunks [''aaa'', ''bbb'', ''secret'', ''ccc''] (chunk_size hasty_cracker) =
      Inr [[''aaa'', ''bbb''], [''secret'', ''ccc'']]"
    by (rule example_chunks) (simp add: hasty_cracker_fields)
  have v: "verify_hash hasty_cracker" by (simp add: hasty_cracker_fields)
  have "0 < threads hasty_cracker" by (simp add: hasty_cracker_fields)
  from crack_multi_unfold [OF ck this, of example_environment "[Timeout, Timeout]"
      "new_stats\<lparr>start_time := 1\<rparr>"]
  have "crack_multi hasty_cracker example_environment [Timeout, Timeout]
          [''aaa'', ''bbb'', ''secret'', ''ccc''] (new_stats\<lparr>start_time := 1\<rparr>) =
        (Inr (Some ''secret''),
         new_stats\<lparr>start_time := 1, errors := [[], []], attempts := 2\<rparr>)"
    by (simp only: example_two_timeouts example_drain [OF v]) (simp add: new_stats_def)
  then have "run_mode hasty_cracker example_environment [Timeout, Timeout]
          [''aaa'', ''bbb'', ''secret'', ''ccc''] (new_stats\<lparr>start_time := 1\<rparr>) =
        (Inr (Some ''secret''),
         new_stats\<lparr>start_time := 1, errors := [[], []], attempts := 2\<rparr>)"
    by (simp add: run_mode_def hasty_cracker_fields)
  then show ?thesis
    by (simp add: crack_def l Let_def example_environment_fields new_stats_def)
qed

section \<open>A worker running alone\<close>

text \<open>
  The steps of a task, taken with no other thread in between, end in \<open>Finished\<close> with
  the state that \<open>finish_worker\<close> computes; from the head of the loop that state is
  the one of \<open>worker_loop\<close>. So the sequential strategy and the end of a parallel run
  are runs of the same steps.
\<close>

lemma reaches_refl: "reaches c e x x"
  unfolding reaches_def by (rule exI [of _ 0]) simp

lemma reaches_trans: "reaches c e x y \<Longrightarrow> reaches c e y z \<Longrightarrow> reaches c e x z"
proof -
  assume "reaches c e x y" and "reaches c e y z"
  then obtain m n where m: "(step_alone c e ^^ m) x = y" and n: "(step_alone c e ^^ n) y = z"
    unfolding reaches_def by blast
  have "(step_alone c e ^^ (n + m)) x = z"
    using m n by (simp add: funpow_add)
  then show ?thesis unfolding reaches_def by blast
qed

lemma reaches_step:
  "worker_step c e w sh st = y \<Longrightarrow> reaches c e y z \<Longrightarrow> reaches c e (w, sh, st) z"
proof -
  assume s: "worker_step c e w sh st = y" and "reaches c e y z"
  have "(step_alone c e ^^ 1) (w, sh, st) = y"
    using s by (simp add: step_alone_def)
  then have "reaches c e (w, sh, st) y" unfolding reaches_def by blast
  then show ?thesis using \<open>reaches c e y z\<close> by (rule reaches_trans)
qed

lemma reaches_probe:
  "reaches c e (Probing p rest encs, sh, st)
     (case try_encodings (verify_hash c) (decrypt_call e) p encs (errors st) of
        (ok, errs) \<Rightarrow> (if ok then Matched p else Missed rest, sh, st\<lparr>errors := errs\<rparr>))"
proof (induction encs arbitrary: st)
  case Nil
  have "worker_step c e (Probing p rest []) sh st = (Missed rest, sh, st)" by simp
  from reaches_step [OF this reaches_refl] show ?case by simp
next
  case (Cons enc encs)
  show ?case
  proof (cases "decrypt_call e p")
    case InvalidKeyError
    then have "worker_step c e (Probing p rest (enc # encs)) sh st = (Probing p rest encs, sh, st)"
      by simp
    from reaches_step [OF this Cons [of st]] InvalidKeyError show ?thesis by simp
  next
    case (Raised msg)
    let ?st = "st\<lparr>errors := errors st @ [''Error with '' @ enc @ '': '' @ msg]\<rparr>"
    from Raised have "worker_step c e (Probing p rest (enc # encs)) sh st = (Probing p rest encs, sh, ?st)"
      by simp
    from reaches_step [OF this Cons [of ?st]] Raised show ?thesis by simp
  next
    case (Decrypted n)
    show ?thesis
    proof (cases "verify_hash c \<and> 0 < n")
      case True
      with Decrypted have "worker_step c e (Probing p rest (enc # encs)) sh st = (Matched p, sh, st)"
        by simp
      from reaches_step [OF this reaches_refl] Decrypted True show ?thesis by simp
    next
      case False
      with Decrypted have "worker_step c e (Probing p rest (enc # encs)) sh st = (Probing p rest encs, sh, st)"
        by auto
      from reaches_step [OF this Cons [of st]] Decrypted False show ?thesis by auto
    qed
  qed
qed

lemma reaches_loop:
  "reaches c e (AtLoop ps, sh, st) (Finished, worker_loop c e ps sh st)"
proof (induction ps arbitrary: st)
  case Nil
  have "worker_step c e (AtLoop []) sh st = (Finished, sh, st)" by simp
  from reaches_step [OF this reaches_refl] show ?case by simp
next
  case (Cons p rest)
  show ?case
  proof (cases "found sh")
    case True
    then have "worker_step c e (AtLoop (p # rest)) sh st = (Finished, sh, st)" by simp
    from reaches_step [OF this reaches_refl] True show ?thesis by simp
  next
    case False
    obtain ok errs where t: "try_decrypt (verify_hash c) (decrypt_call e) p (errors st) = (ok, errs)"
      by (cases "try_decrypt (verify_hash c) (decrypt_call e) p (errors st)")
    then have t': "try_encodings (verify_hash c) (decrypt_call e) p encodings (errors st) = (ok, errs)"
      by (simp add: try_decrypt_def)
    from False have s1: "worker_step c e (AtLoop (p # rest)) sh st = (Probing p rest encodings, sh, st)"
      by simp
    from reaches_probe [of c e p rest encodings sh st] t'
    have r1: "reaches c e (Probing p rest encodings, sh, st)
        (if ok then Matched p else Missed rest, sh, st\<lparr>errors := errs\<rparr>)"
      by simp
    have r2: "reaches c e (if ok then Matched p else Missed rest, sh, st\<lparr>errors := errs\<rparr>)
        (Finished, worker_loop c e (p # rest) sh st)"
    proof (cases ok)
      case True
      have "worker_step c e (Matched p) sh (st\<lparr>errors := errs\<rparr>) =
          (Finished, sh\<lparr>found := True, password := Some p\<rparr>, st\<lparr>errors := errs\<rparr>)"
        by simp
      from reaches_step [OF this reaches_refl] True False t show ?thesis by simp
    next
      case no: False
      let ?st = "st\<lparr>errors := errs, attempts := attempts st + 1\<rparr>"
      have "worker_step c e (Missed rest) sh (st\<lparr>errors := errs\<rparr>) = (AtLoop rest, sh, ?st)"
        by simp
      from reaches_step [OF this Cons [of ?st]] no False t show ?thesis by simp
    qed
    from reaches_step [OF s1 reaches_trans [OF r1 r2]] show ?thesis .
  qed
qed

lemma reaches_finish:
  "reaches c e (w, sh, st) (Finished, finish_worker c e w (sh, st))"
proof (cases w)
  case (Queued ps)
  show ?thesis
  proof (cases "office_error e")
    case None
    then have "worker_step c e (Queued ps) sh st = (AtLoop ps, sh, st)" by simp
    from reaches_step [OF this reaches_loop] None Queued show ?thesis
      by (simp add: worker_def)
  next
    case (Some msg)
    then have "worker_step c e (Queued ps) sh st = (Finished, sh, st\<lparr>errors := errors st @ [msg]\<rparr>)"
      by simp
    from reaches_step [OF this reaches_refl] Some Queued show ?thesis
      by (simp add: worker_def)
  qed
next
  case (AtLoop ps)
  with reaches_loop [of c e ps sh st] show ?thesis by simp
next
  case (Probing p rest encs)
  obtain ok errs where t: "try_encodings (verify_hash c) (decrypt_call e) p encs (errors st) = (ok, errs)"
    by (cases "try_encodings (verify_hash c) (decrypt_call e) p encs (errors st)")
  from reaches_probe [of c e p rest encs sh st] t
  have r1: "reaches c e (Probing p rest encs, sh, st)
      (if ok then Matched p else Missed rest, sh, st\<lparr>errors := errs\<rparr>)"
    by simp
  have r2: "reaches c e (if ok then Matched p else Missed rest, sh, st\<lparr>errors := errs\<rparr>)
      (Finished, finish_worker c e (Probing p rest encs) (sh, st))"
  proof (cases ok)
    case True
    have "worker_step c e (Matched p) sh (st\<lparr>errors := errs\<rparr>) =
        (Finished, sh\<lparr>found := True, password := Some p\<rparr>, st\<lparr>errors := errs\<rparr>)"
      by simp
    from reaches_step [OF this reaches_refl] True t show ?thesis by simp
  next
    case False
    let ?st = "st\<lparr>errors := errs, attempts := attempts st + 1\<rparr>"
    have "worker_step c e (Missed rest) sh (st\<lparr>errors := errs\<rparr>) = (AtLoop rest, sh, ?st)"
      by simp
    from reaches_step [OF this reaches_loop] False t show ?thesis by simp
  qed
  from reaches_trans [OF r1 r2] Probing show ?thesis by simp
next
  case (Matched p)
  have "worker_step c e (Matched p) sh st = (Finished, sh\<lparr>found := True, password := Some p\<rparr>, st)"
    by simp
  from reaches_step [OF this reaches_refl] Matched show ?thesis by simp
next
  case (Missed rest)
  have "worker_step c e (Missed rest) sh st = (AtLoop rest, sh, st\<lparr>attempts := attempts st + 1\<rparr>)"
    by simp
  from reaches_step [OF this reaches_loop] Missed show ?thesis by simp
next
  case Finished
  with reaches_refl [of c e "(Finished, sh, st)"] show ?thesis by simp
qed

section \<open>What crack returns\<close>


















subsection \<open>A matching candidate is found under every schedule\<close>













subsection \<open>Without a match every probe error is recorded\<close>













subsection \<open>Workers that cannot open the document\<close>







subsection \<open>The triple\<close>








end
